theory Spec2Isabelle
  imports Main "HOL-Library.AList" "HOL-Library.Multiset" "HOL-Library.Word"
begin

section \<open>JavaScript values and array primitives\<close>

text \<open>
  The tokenizer (\<^verbatim>\<open>tokenizer.js\<close>) and the bidi driver (\<^verbatim>\<open>bidi.js\<close>) are
  JavaScript. The model makes the dynamic behaviour they rely on explicit: truthiness,
  \<^verbatim>\<open>isNaN\<close>, the coercion of an argument to an integer, and the clamping done by
  \<^verbatim>\<open>Array.prototype.slice\<close> and \<^verbatim>\<open>Array.prototype.splice\<close>.

  A JavaScript string is a sequence of UTF-16 code units; property names, event names
  and context names are ASCII identifiers and are written as HOL strings.
\<close>

type_synonym jsstring = "16 word list"

text \<open>Values that a state modifier stores in a token.\<close>

datatype jsval =
  JUndefined | JNull | JBool bool | JNum int | JNaN | JStr string | JArr "jsval list"

fun truthy :: "jsval \<Rightarrow> bool" where
  "truthy JUndefined = False"
| "truthy JNull = False"
| "truthy (JBool b) = b"
| "truthy (JNum n) = (n \<noteq> 0)"
| "truthy JNaN = False"
| "truthy (JStr s) = (s \<noteq> [])"
| "truthy (JArr xs) = True"

text \<open>
  Values passed where the code expects a number or a flag (an index, an offset,
  \<^verbatim>\<open>silent\<close>): a missing argument is \<^verbatim>\<open>undefined\<close>. Numbers are integers or NaN
  (fractions and the infinities are left out).
\<close>

datatype jsprim = PUndefined | PNull | PBool bool | PNum int | PNaN

text \<open>\<^verbatim>\<open>Number(x)\<close>; \<open>None\<close> is NaN.\<close>

fun to_number :: "jsprim \<Rightarrow> int option" where
  "to_number PUndefined = None"
| "to_number PNull = Some 0"
| "to_number (PBool b) = Some (if b then 1 else 0)"
| "to_number (PNum n) = Some n"
| "to_number PNaN = None"

definition isNaN :: "jsprim \<Rightarrow> bool" where
  "isNaN x = (to_number x = None)"

text \<open>ToIntegerOrInfinity, as \<^verbatim>\<open>splice\<close> and \<^verbatim>\<open>slice\<close> apply it to their arguments.\<close>

definition to_integer :: "jsprim \<Rightarrow> int" where
  "to_integer x = (case to_number x of None \<Rightarrow> 0 | Some n \<Rightarrow> n)"

fun truthy_prim :: "jsprim \<Rightarrow> bool" where
  "truthy_prim PUndefined = False"
| "truthy_prim PNull = False"
| "truthy_prim (PBool b) = b"
| "truthy_prim (PNum n) = (n \<noteq> 0)"
| "truthy_prim PNaN = False"

text \<open>The result of reading a place that may hold nothing.\<close>

datatype 'a js_ref = Undefined | Null | Elem 'a

text \<open>\<^verbatim>\<open>xs[i]\<close>: \<^verbatim>\<open>undefined\<close> out of range.\<close>

definition js_nth :: "'a list \<Rightarrow> int \<Rightarrow> 'a js_ref" where
  "js_nth xs i = (if 0 \<le> i \<and> i < int (length xs) then Elem (xs ! nat i) else Undefined)"

text \<open>A relative index of \<^verbatim>\<open>slice\<close> and \<^verbatim>\<open>splice\<close>: negative counts from the end.\<close>

definition relative_index :: "nat \<Rightarrow> int \<Rightarrow> int" where
  "relative_index len i = (if i < 0 then max (int len + i) 0 else min i (int len))"

text \<open>\<^verbatim>\<open>xs.slice(start, end)\<close>; \<open>None\<close> for an absent \<^verbatim>\<open>end\<close>.\<close>

definition js_slice :: "'a list \<Rightarrow> int \<Rightarrow> int option \<Rightarrow> 'a list" where
  "js_slice xs start fin =
     (let k = relative_index (length xs) start;
          final = (case fin of None \<Rightarrow> int (length xs) | Some e \<Rightarrow> relative_index (length xs) e)
      in take (nat (final - k)) (drop (nat k) xs))"

text \<open>
  \<^verbatim>\<open>xs.splice(start, deleteCount, ...items)\<close> with both leading arguments present:
  the removed elements and the array afterwards.
\<close>

definition js_splice :: "'a list \<Rightarrow> int \<Rightarrow> int \<Rightarrow> 'a list \<Rightarrow> 'a list \<times> 'a list" where
  "js_splice xs start deleteCount items =
     (let k = relative_index (length xs) start;
          n = min (max deleteCount 0) (int (length xs) - k)
      in (take (nat n) (drop (nat k) xs),
          take (nat k) xs @ items @ drop (nat (k + n)) xs))"

section \<open>Token\<close>

text \<open>
  What reading a property gives: a value, or something built into the language (a function
  or an object, which is truthy), known here by its name.
\<close>

datatype js_read = Value jsval | Builtin string

fun truthy_read :: "js_read \<Rightarrow> bool" where
  "truthy_read (Value v) = truthy v"
| "truthy_read (Builtin n) = True"

text \<open>
  \<^verbatim>\<open>this.state = {}\<close> is a plain object: it has its own properties, the ones written by
  \<open>setState\<close>, and a prototype, \<^verbatim>\<open>Object.prototype\<close> at first. An assignment to the
  inherited accessor \<^verbatim>\<open>__proto__\<close> replaces the prototype by \<^verbatim>\<open>null\<close> or by the object
  assigned (of the values here, an array).
\<close>

datatype prototype = ObjectPrototype | NullPrototype | ArrayPrototype "jsval list"

record token =
  char :: jsstring
  state :: "(string \<times> jsval) list"
  state_prototype :: prototype
  activeState :: "(string \<times> js_read) option"

text \<open>\<^verbatim>\<open>new Token(char)\<close>\<close>

definition Token :: "jsstring \<Rightarrow> token" where
  "Token c = \<lparr>char = c, state = [], state_prototype = ObjectPrototype, activeState = None\<rparr>"

text \<open>The names of the functions that every object inherits from \<^verbatim>\<open>Object.prototype\<close>.\<close>

definition Object_prototype_names :: "string list" where
  "Object_prototype_names =
     [''constructor'', ''__defineGetter__'', ''__defineSetter__'', ''hasOwnProperty'',
      ''__lookupGetter__'', ''__lookupSetter__'', ''isPrototypeOf'', ''propertyIsEnumerable'',
      ''toString'', ''valueOf'', ''toLocaleString'']"

text \<open>
  What the inherited getter of \<^verbatim>\<open>__proto__\<close> returns: the prototype of the state object.
  With the prototype \<^verbatim>\<open>null\<close> no getter is inherited and the read gives \<^verbatim>\<open>undefined\<close>.
\<close>

definition proto_read :: "token \<Rightarrow> js_read" where
  "proto_read t = (case state_prototype t of
                     ObjectPrototype \<Rightarrow> Builtin ''Object.prototype''
                   | NullPrototype \<Rightarrow> Value JUndefined
                   | ArrayPrototype xs \<Rightarrow> Value (JArr xs))"

text \<open>
  \<^verbatim>\<open>this.state[key]\<close>: the own property when there is one, else what the prototype gives:
  the inherited function for a name of \<^verbatim>\<open>Object.prototype\<close>, the prototype itself for
  \<^verbatim>\<open>__proto__\<close>, and \<^verbatim>\<open>undefined\<close> for every other name. The properties of an array (its
  own and those it inherits) are defined by the language; they are the parameter
  \<open>array_property\<close>, read only when an array has been made the prototype.
\<close>

definition state_at :: "(jsval list \<Rightarrow> string \<Rightarrow> js_read) \<Rightarrow> token \<Rightarrow> string \<Rightarrow> js_read" where
  "state_at array_property t k =
     (case map_of (state t) k of
        Some v \<Rightarrow> Value v
      | None \<Rightarrow>
          if k = ''__proto__'' then proto_read t
          else (case state_prototype t of
                  ObjectPrototype \<Rightarrow> if k \<in> set Object_prototype_names then Builtin k
                                     else Value JUndefined
                | NullPrototype \<Rightarrow> Value JUndefined
                | ArrayPrototype xs \<Rightarrow> array_property xs k))"

text \<open>
  \<^verbatim>\<open>this.state[key] = value\<close>. The assignment writes an own property, except when the key is
  \<^verbatim>\<open>__proto__\<close>, the object has no own property of that name and still has a prototype:
  then the inherited setter runs, which replaces the prototype when the value is \<^verbatim>\<open>null\<close>
  or an object and does nothing otherwise.
\<close>

definition writes_own :: "string \<Rightarrow> token \<Rightarrow> bool" where
  "writes_own k t \<longleftrightarrow>
     k \<noteq> ''__proto__'' \<or> map_of (state t) k \<noteq> None \<or> state_prototype t = NullPrototype"

definition assign_state :: "string \<Rightarrow> jsval \<Rightarrow> token \<Rightarrow> token" where
  "assign_state k v t =
     (if writes_own k t then t\<lparr>state := AList.update k v (state t)\<rparr>
      else (case v of
              JNull \<Rightarrow> t\<lparr>state_prototype := NullPrototype\<rparr>
            | JArr xs \<Rightarrow> t\<lparr>state_prototype := ArrayPrototype xs\<rparr>
            | _ \<Rightarrow> t))"

text \<open>
  \<^verbatim>\<open>setState(key, value)\<close>: the new active state and the token afterwards. The active
  state holds \<^verbatim>\<open>this.state[key]\<close> as read back after the assignment: the value written,
  or for the inherited \<^verbatim>\<open>__proto__\<close> what its getter returns.
\<close>

definition setState :: "string \<Rightarrow> jsval \<Rightarrow> token \<Rightarrow> (string \<times> js_read) \<times> token" where
  "setState k v t =
     (let t1 = assign_state k v t;
          r = (if writes_own k t then Value v else proto_read t1);
          t2 = t1\<lparr>activeState := Some (k, r)\<rparr>
      in ((k, r), t2))"

text \<open>\<^verbatim>\<open>getState(stateId) { return this.state[stateId] || null }\<close>\<close>

definition getState :: "(jsval list \<Rightarrow> string \<Rightarrow> js_read) \<Rightarrow> string \<Rightarrow> token \<Rightarrow> js_read" where
  "getState array_property stateId t =
     (if truthy_read (state_at array_property t stateId) then state_at array_property t stateId
      else Value JNull)"

section \<open>ContextRange, ContextChecker, ContextParams\<close>

record contextRange =
  contextName :: string
  startIndex :: int
  endOffset :: "int option"
  rangeId :: "(string \<times> nat) option"

text \<open>\<^verbatim>\<open>new ContextRange(startIndex, endOffset, contextName)\<close>; no \<^verbatim>\<open>rangeId\<close> yet.\<close>

definition ContextRange :: "int \<Rightarrow> int option \<Rightarrow> string \<Rightarrow> contextRange" where
  "ContextRange s e n = \<lparr>contextName = n, startIndex = s, endOffset = e, rangeId = None\<rparr>"

record 'a contextParams =
  context_items :: "'a list"
  index :: int
  context_length :: nat
  current :: "'a js_ref"
  backtrack :: "'a list"
  lookahead :: "'a list"

text \<open>\<^verbatim>\<open>new ContextParams(context, currentIndex)\<close>\<close>

definition ContextParams :: "'a list \<Rightarrow> int \<Rightarrow> 'a contextParams" where
  "ContextParams cs i =
     \<lparr>context_items = cs, index = i, context_length = length cs,
      current = js_nth cs i,
      backtrack = js_slice cs 0 (Some i),
      lookahead = js_slice cs (i + 1) None\<rparr>"

text \<open>
  \<^verbatim>\<open>get(offset)\<close>: the \<^verbatim>\<open>switch (true)\<close> takes the first case that holds;
  \<^verbatim>\<open>this.backtrack.slice(offset)[0]\<close> for a negative offset.
\<close>

definition get :: "'a contextParams \<Rightarrow> int \<Rightarrow> 'a js_ref" where
  "get p off =
     (if off = 0 then current p
      else if off < 0 \<and> \<bar>off\<bar> \<le> int (length (backtrack p))
        then js_nth (js_slice (backtrack p) off None) 0
      else if off > 0 \<and> off \<le> int (length (lookahead p))
        then js_nth (lookahead p) (off - 1)
      else Null)"

section \<open>Events and the tokenizer state\<close>

text \<open>An element of a token list passed by a caller: a \<^verbatim>\<open>Token\<close> instance or anything else.\<close>

datatype item = IsToken token | NotToken jsval

fun instanceof_Token :: "item \<Rightarrow> bool" where
  "instanceof_Token (IsToken t) = True"
| "instanceof_Token (NotToken v) = False"

fun tokens_of :: "item list \<Rightarrow> token list" where
  "tokens_of [] = []"
| "tokens_of (IsToken t # xs) = t # tokens_of xs"
| "tokens_of (NotToken v # xs) = tokens_of xs"

text \<open>
  What an editing operation returns: a \<^verbatim>\<open>{FAIL: ...}\<close> record (with the report of
  \<^verbatim>\<open>composeRUD\<close>), an array of tokens, the pairs returned by the two replace
  operations, or \<^verbatim>\<open>undefined\<close>.
\<close>

datatype result =
    FAIL string
  | FAIL_report string "result list"
  | Tokens "token list"
  | ReplacedToken "token js_ref" token
  | ReplacedRange "token list" "token list"
  | NoResult

text \<open>\<^verbatim>\<open>typeof obj === 'object' && obj.hasOwnProperty('FAIL')\<close>\<close>

fun hasFAILObject :: "result \<Rightarrow> bool" where
  "hasFAILObject (FAIL m) = True"
| "hasFAILObject (FAIL_report m r) = True"
| "hasFAILObject (Tokens ts) = False"
| "hasFAILObject (ReplacedToken r t) = False"
| "hasFAILObject (ReplacedRange r ts) = False"
| "hasFAILObject NoResult = False"

text \<open>The arguments an event is dispatched with.\<close>

datatype earg =
    EPrim jsprim
  | EName string
  | EToken token
  | ETokens "token list"
  | ERange contextRange
  | EParams "jsstring contextParams"
  | EResults "result list"
  | ERegisteredContexts

text \<open>
  The model records what happens on the event bus in a trace, which the code does not
  have: every call of \<^verbatim>\<open>dispatch\<close>, and every invocation of a handler supplied by a
  user. A user's handler is an observer \<open>Observer h\<close>: it is known by its number \<open>h\<close> and
  does not call back into the tokenizer.
\<close>

datatype entry = Dispatch string "earg list" | Invoke nat string "earg list"

text \<open>
  A subscriber of an event: the tokenizer's own \<^verbatim>\<open>updateContextsRanges\<close>, a user's
  observer, or the handler that \<^verbatim>\<open>registerModifier\<close> builds from a modifier id, an
  optional condition and a modifier function.
\<close>

datatype subscriber =
    UpdateContextsRanges
  | Observer nat
  | Modifier string "(token \<Rightarrow> jsstring contextParams \<Rightarrow> jsval) option"
      "token \<Rightarrow> jsstring contextParams \<Rightarrow> jsval"

record contextChecker =
  checker_contextName :: string
  openRange :: "contextRange option"
  ranges :: "contextRange list"
  checkStart :: "jsstring contextParams \<Rightarrow> bool"
  checkEnd :: "jsstring contextParams \<Rightarrow> bool"

text \<open>\<^verbatim>\<open>new ContextChecker(contextName, checkStart, checkEnd)\<close>\<close>

definition ContextChecker ::
  "string \<Rightarrow> (jsstring contextParams \<Rightarrow> bool) \<Rightarrow> (jsstring contextParams \<Rightarrow> bool) \<Rightarrow> contextChecker" where
  "ContextChecker n s e =
     \<lparr>checker_contextName = n, openRange = None, ranges = [], checkStart = s, checkEnd = e\<rparr>"

text \<open>
  The tokenizer. \<^verbatim>\<open>registeredContexts\<close> and \<^verbatim>\<open>contextCheckers\<close> hold the same
  \<^verbatim>\<open>ContextChecker\<close> objects, the first by name and the second in registration order;
  the model keeps the list, and \<^verbatim>\<open>registeredContexts[name]\<close> is the checker of that
  name in it.
\<close>

record tokenizer =
  tokens :: "token list"
  contextCheckers :: "contextChecker list"
  events :: "(string \<times> subscriber list) list"
  registeredModifiers :: "string list"
  trace :: "entry list"

definition coreEvents :: "string list" where
  "coreEvents =
     [''start'', ''end'', ''next'', ''newToken'', ''contextStart'',
      ''contextEnd'', ''insertToken'', ''removeToken'', ''removeRange'',
      ''replaceToken'', ''replaceRange'', ''composeRUD'', ''updateContextsRanges'']"

definition requiresContextUpdate :: "string list" where
  "requiresContextUpdate =
     [''insertToken'', ''removeToken'', ''removeRange'',
      ''replaceToken'', ''replaceRange'', ''composeRUD'']"

text \<open>What a caller passes as a handler: a function (an observer) or something else.\<close>

datatype handler = Fn nat | NotFn jsval

text \<open>\<^verbatim>\<open>this.events[eventId].subscribe(s)\<close> for a callable \<open>s\<close>.\<close>

definition subscribe :: "string \<Rightarrow> subscriber \<Rightarrow> (string \<times> subscriber list) list \<Rightarrow> (string \<times> subscriber list) list" where
  "subscribe eventId s evs =
     (case map_of evs eventId of
        None \<Rightarrow> evs
      | Some subs \<Rightarrow> AList.update eventId (subs @ [s]) evs)"

text \<open>
  \<^verbatim>\<open>initializeCoreEvents(events)\<close>: the core events, then the handlers of the
  constructor's argument, then \<^verbatim>\<open>updateContextsRanges\<close> on the six editing events.
\<close>

definition initializeCoreEvents :: "(string \<times> handler) list \<Rightarrow> (string \<times> subscriber list) list" where
  "initializeCoreEvents user =
     (let evs0 = map (\<lambda>eventId. (eventId, [])) coreEvents;
          evs1 = fold (\<lambda>eventId evs.
                    (case map_of user eventId of
                       Some (Fn h) \<Rightarrow> subscribe eventId (Observer h) evs
                     | _ \<Rightarrow> evs)) coreEvents evs0
      in fold (\<lambda>eventId. subscribe eventId UpdateContextsRanges) requiresContextUpdate evs1)"

text \<open>\<^verbatim>\<open>new Tokenizer(events)\<close>\<close>

definition Tokenizer :: "(string \<times> handler) list \<Rightarrow> tokenizer" where
  "Tokenizer user =
     \<lparr>tokens = [], contextCheckers = [], events = initializeCoreEvents user,
      registeredModifiers = [], trace = []\<rparr>"

text \<open>\<^verbatim>\<open>inboundIndex(index)\<close>: \<^verbatim>\<open>index >= 0 && index < this.tokens.length\<close>.\<close>

definition inboundIndex :: "jsprim \<Rightarrow> tokenizer \<Rightarrow> bool" where
  "inboundIndex i t =
     (case to_number i of
        None \<Rightarrow> False
      | Some n \<Rightarrow> 0 \<le> n \<and> n < int (length (tokens t)))"

text \<open>\<^verbatim>\<open>getContext(contextName)\<close>; \<open>None\<close> is \<^verbatim>\<open>null\<close>.\<close>

definition getContext :: "string \<Rightarrow> tokenizer \<Rightarrow> contextChecker option" where
  "getContext n t = find (\<lambda>c. checker_contextName c = n) (contextCheckers t)"

text \<open>An assignment to a field of \<^verbatim>\<open>this.getContext(contextName)\<close>.\<close>

definition update_context :: "string \<Rightarrow> (contextChecker \<Rightarrow> contextChecker) \<Rightarrow> tokenizer \<Rightarrow> tokenizer" where
  "update_context n f t =
     t\<lparr>contextCheckers :=
         map (\<lambda>c. if checker_contextName c = n then f c else c) (contextCheckers t)\<rparr>"

text \<open>The context params of the arguments \<^verbatim>\<open>[token, contextParams]\<close> of \<^verbatim>\<open>newToken\<close>.\<close>

fun newToken_params :: "earg list \<Rightarrow> jsstring contextParams option" where
  "newToken_params [EToken tok, EParams p] = Some p"
| "newToken_params args = None"

text \<open>
  The handler of \<^verbatim>\<open>registerModifier\<close>, invoked on \<^verbatim>\<open>newToken\<close> with the token that
  \<^verbatim>\<open>tokenize\<close> has just pushed (the last of the vector) and the context params.
\<close>

definition apply_modifier ::
  "string \<Rightarrow> (token \<Rightarrow> jsstring contextParams \<Rightarrow> jsval) option \<Rightarrow>
   (token \<Rightarrow> jsstring contextParams \<Rightarrow> jsval) \<Rightarrow> earg list \<Rightarrow> tokenizer \<Rightarrow> tokenizer" where
  "apply_modifier modifierId condition modifier args t =
     (case newToken_params args of
        Some p \<Rightarrow>
          (if tokens t = [] then t
           else
             let tok = last (tokens t);
                 canApplyModifier =
                   (case condition of None \<Rightarrow> True | Some c \<Rightarrow> c tok p = JBool True)
             in if canApplyModifier
                then t\<lparr>tokens := butlast (tokens t) @ [snd (setState modifierId (modifier tok p) tok)]\<rparr>
                else t)
      | None \<Rightarrow> t)"

text \<open>
  Dispatch of the events raised while scanning (\<^verbatim>\<open>start\<close>, \<^verbatim>\<open>next\<close>, \<^verbatim>\<open>newToken\<close>,
  \<^verbatim>\<open>end\<close>, \<^verbatim>\<open>contextStart\<close>, \<^verbatim>\<open>contextEnd\<close>, \<^verbatim>\<open>updateContextsRanges\<close>).
  \<^verbatim>\<open>initializeCoreEvents\<close> subscribes \<^verbatim>\<open>updateContextsRanges\<close> to none of them.
\<close>

fun notify_one :: "string \<Rightarrow> earg list \<Rightarrow> subscriber \<Rightarrow> tokenizer \<Rightarrow> tokenizer" where
  "notify_one e args (Observer h) t = t\<lparr>trace := trace t @ [Invoke h e args]\<rparr>"
| "notify_one e args (Modifier modifierId condition modifier) t =
     apply_modifier modifierId condition modifier args t"
| "notify_one e args UpdateContextsRanges t = t"

definition notify :: "string \<Rightarrow> earg list \<Rightarrow> tokenizer \<Rightarrow> tokenizer" where
  "notify e args t =
     (let t1 = t\<lparr>trace := trace t @ [Dispatch e args]\<rparr>
      in case map_of (events t1) e of
           None \<Rightarrow> t1
         | Some subs \<Rightarrow> fold (notify_one e args) subs t1)"

text \<open>\<^verbatim>\<open>resetContextsRanges()\<close>: every registered context gets \<^verbatim>\<open>ranges = []\<close>.\<close>

definition resetContextsRanges :: "tokenizer \<Rightarrow> tokenizer" where
  "resetContextsRanges t =
     t\<lparr>contextCheckers := map (\<lambda>c. c\<lparr>ranges := []\<rparr>) (contextCheckers t)\<rparr>"

text \<open>
  \<^verbatim>\<open>setEndOffset(offset, contextName)\<close>; \<open>None\<close> is the TypeError of reading the
  start index of an open range that is not there.
\<close>

definition setEndOffset :: "int \<Rightarrow> string \<Rightarrow> tokenizer \<Rightarrow> (contextRange \<times> tokenizer) option" where
  "setEndOffset offset n t =
     (case Option.bind (getContext n t) openRange of
        None \<Rightarrow> None
      | Some r \<Rightarrow>
          (case getContext n t of
             None \<Rightarrow> None
           | Some c \<Rightarrow>
               let rng = (ContextRange (startIndex r) (Some offset) n)
                           \<lparr>rangeId := Some (n, length (ranges c))\<rparr>
               in Some (rng,
                    update_context n (\<lambda>x. x\<lparr>ranges := ranges x @ [rng], openRange := None\<rparr>) t)))"

text \<open>
  The body of the loop of \<^verbatim>\<open>runContextCheck\<close> for one checker of the list. The open
  range is read through \<^verbatim>\<open>getContext\<close>, the predicates from the checker.
\<close>

definition check_one :: "jsstring contextParams \<Rightarrow> contextChecker \<Rightarrow> tokenizer \<Rightarrow> tokenizer" where
  "check_one p contextChecker t =
     (let n = checker_contextName contextChecker;
          open0 = Option.bind (getContext n t) openRange;
          starts = (open0 = None \<and> checkStart contextChecker p);
          open1 = (if starts then Some (ContextRange (index p) None n) else open0);
          t1 = (if starts
                then notify ''contextStart'' [EName n, EPrim (PNum (index p))]
                       (update_context n (\<lambda>x. x\<lparr>openRange := open1\<rparr>) t)
                else t)
      in case open1 of
           None \<Rightarrow> t1
         | Some r \<Rightarrow>
             if checkEnd contextChecker p
             then (case setEndOffset (index p - startIndex r + 1) n t1 of
                     None \<Rightarrow> t1
                   | Some (rng, t2) \<Rightarrow> notify ''contextEnd'' [EName n, ERange rng] t2)
             else t1)"

definition runContextCheck :: "jsstring contextParams \<Rightarrow> tokenizer \<Rightarrow> tokenizer" where
  "runContextCheck p t = fold (check_one p) (contextCheckers t) t"

text \<open>The loop shared by \<^verbatim>\<open>updateContextsRanges\<close>: a context check at every index.\<close>

definition scan :: "jsstring list \<Rightarrow> tokenizer \<Rightarrow> tokenizer" where
  "scan chars t = fold (\<lambda>i. runContextCheck (ContextParams chars (int i))) [0..<length chars] t"

definition updateContextsRanges :: "tokenizer \<Rightarrow> tokenizer" where
  "updateContextsRanges t =
     (let t1 = resetContextsRanges t;
          chars = map char (tokens t1)
      in notify ''updateContextsRanges'' [ERegisteredContexts] (scan chars t1))"

text \<open>\<^verbatim>\<open>dispatch(eventName, args)\<close> as the editing operations call it.\<close>

fun dispatch_one :: "string \<Rightarrow> earg list \<Rightarrow> subscriber \<Rightarrow> tokenizer \<Rightarrow> tokenizer" where
  "dispatch_one e args UpdateContextsRanges t = updateContextsRanges t"
| "dispatch_one e args s t = notify_one e args s t"

definition dispatch :: "string \<Rightarrow> earg list \<Rightarrow> tokenizer \<Rightarrow> tokenizer" where
  "dispatch e args t =
     (let t1 = t\<lparr>trace := trace t @ [Dispatch e args]\<rparr>
      in case map_of (events t1) e of
           None \<Rightarrow> t1
         | Some subs \<Rightarrow> fold (dispatch_one e args) subs t1)"

section \<open>Editing operations\<close>

text \<open>
  Every operation returns its result and the tokenizer afterwards. An omitted
  \<^verbatim>\<open>silent\<close> is \<open>PUndefined\<close>.
\<close>

definition replaceRange ::
  "jsprim \<Rightarrow> jsprim \<Rightarrow> item list \<Rightarrow> jsprim \<Rightarrow> tokenizer \<Rightarrow> result \<times> tokenizer" where
  "replaceRange start offset0 items silent t =
     (let offset = (if offset0 \<noteq> PNull then offset0 else PNum (int (length (tokens t))));
          isTokenType = list_all instanceof_Token items
      in if \<not> isNaN start \<and> inboundIndex start t \<and> isTokenType
         then
           let (replaced, rest) =
                 js_splice (tokens t) (to_integer start) (to_integer offset) (tokens_of items);
               t1 = t\<lparr>tokens := rest\<rparr>;
               t2 = (if \<not> truthy_prim silent
                     then dispatch ''replaceToken''
                            [EPrim start, EPrim offset, ETokens (tokens_of items)] t1
                     else t1)
           in (ReplacedRange replaced (tokens_of items), t2)
         else (FAIL ''replaceRange: invalid tokens or startIndex.'', t))"

definition replaceToken :: "jsprim \<Rightarrow> item \<Rightarrow> jsprim \<Rightarrow> tokenizer \<Rightarrow> result \<times> tokenizer" where
  "replaceToken i itm silent t =
     (case itm of
        IsToken tok \<Rightarrow>
          if \<not> isNaN i \<and> inboundIndex i t
          then
            let (replaced, rest) = js_splice (tokens t) (to_integer i) 1 [tok];
                t1 = t\<lparr>tokens := rest\<rparr>;
                t2 = (if \<not> truthy_prim silent
                      then dispatch ''replaceToken'' [EPrim i, EToken tok] t1
                      else t1)
            in (ReplacedToken (js_nth replaced 0) tok, t2)
          else (FAIL ''replaceToken: invalid token or index.'', t)
      | NotToken v \<Rightarrow> (FAIL ''replaceToken: invalid token or index.'', t))"

definition removeRange :: "jsprim \<Rightarrow> jsprim \<Rightarrow> jsprim \<Rightarrow> tokenizer \<Rightarrow> result \<times> tokenizer" where
  "removeRange start offset0 silent t =
     (let offset = (if \<not> isNaN offset0 then offset0 else PNum (int (length (tokens t))));
          (removed, rest) = js_splice (tokens t) (to_integer start) (to_integer offset) [];
          t1 = t\<lparr>tokens := rest\<rparr>;
          t2 = (if \<not> truthy_prim silent
                then dispatch ''removeRange'' [ETokens removed, EPrim start, EPrim offset] t1
                else t1)
      in (Tokens removed, t2))"

definition removeToken :: "jsprim \<Rightarrow> jsprim \<Rightarrow> tokenizer \<Rightarrow> result \<times> tokenizer" where
  "removeToken i silent t =
     (if \<not> isNaN i \<and> inboundIndex i t
      then
        let (removed, rest) = js_splice (tokens t) (to_integer i) 1 [];
            t1 = t\<lparr>tokens := rest\<rparr>;
            t2 = (if \<not> truthy_prim silent
                  then dispatch ''removeToken'' [ETokens removed, EPrim i] t1
                  else t1)
        in (Tokens removed, t2)
      else (FAIL ''removeToken: invalid token index.'', t))"

definition insertToken :: "item list \<Rightarrow> jsprim \<Rightarrow> jsprim \<Rightarrow> tokenizer \<Rightarrow> result \<times> tokenizer" where
  "insertToken items i silent t =
     (let tokenType = list_all instanceof_Token items
      in if tokenType
         then
           let (removed, rest) = js_splice (tokens t) (to_integer i) 0 (tokens_of items);
               t1 = t\<lparr>tokens := rest\<rparr>;
               t2 = (if \<not> truthy_prim silent
                     then dispatch ''insertToken'' [ETokens (tokens_of items), EPrim i] t1
                     else t1)
           in (Tokens (tokens_of items), t2)
         else (FAIL ''insertToken: invalid token(s).'', t))"

text \<open>
  An element \<^verbatim>\<open>[name, ...args]\<close> of the list given to \<^verbatim>\<open>composeRUD\<close>: a call of one
  of the five operations with its arguments other than \<^verbatim>\<open>silent\<close>.
  \<^verbatim>\<open>removeRange\<close> defaults its offset, so a call may leave it out:
  \<open>RUD_removeRange_start s\<close> is \<^verbatim>\<open>['removeRange', s]\<close>.
\<close>

datatype rud =
    RUD_insertToken "item list" jsprim
  | RUD_removeToken jsprim
  | RUD_removeRange jsprim jsprim
  | RUD_removeRange_start jsprim
  | RUD_replaceToken jsprim item
  | RUD_replaceRange jsprim jsprim "item list"

text \<open>
  \<^verbatim>\<open>this[RUD[0]].apply(this, RUD.slice(1).concat(silent))\<close> with \<^verbatim>\<open>silent = true\<close>:
  \<^verbatim>\<open>true\<close> becomes the argument after the ones listed, and a parameter after that is
  \<^verbatim>\<open>undefined\<close>.
\<close>

fun apply_RUD :: "rud \<Rightarrow> tokenizer \<Rightarrow> result \<times> tokenizer" where
  "apply_RUD (RUD_insertToken items i) t = insertToken items i (PBool True) t"
| "apply_RUD (RUD_removeToken i) t = removeToken i (PBool True) t"
| "apply_RUD (RUD_removeRange s off) t = removeRange s off (PBool True) t"
| "apply_RUD (RUD_removeRange_start s) t = removeRange s (PBool True) PUndefined t"
| "apply_RUD (RUD_replaceToken i itm) t = replaceToken i itm (PBool True) t"
| "apply_RUD (RUD_replaceRange s off items) t = replaceRange s off items (PBool True) t"

text \<open>\<^verbatim>\<open>RUDs.map(...)\<close>: the operations run in order on the same tokenizer.\<close>

fun map_RUDs :: "rud list \<Rightarrow> tokenizer \<Rightarrow> result list \<times> tokenizer" where
  "map_RUDs [] t = ([], t)"
| "map_RUDs (r # rs) t =
     (let (x, t1) = apply_RUD r t;
          (xs, t2) = map_RUDs rs t1
      in (x # xs, t2))"

definition composeRUD :: "rud list \<Rightarrow> tokenizer \<Rightarrow> result \<times> tokenizer" where
  "composeRUD RUDs t =
     (let (st, t1) = map_RUDs RUDs t
      in if list_all hasFAILObject st
         then (FAIL_report ''composeRUD: one or more operations hasn't completed successfully''
                 (filter hasFAILObject st), t1)
         else (NoResult,
               dispatch ''composeRUD'' [EResults (filter (\<lambda>x. \<not> hasFAILObject x) st)] t1))"

section \<open>Registration, accessors and the forward scan\<close>

definition registerModifier ::
  "string \<Rightarrow> (token \<Rightarrow> jsstring contextParams \<Rightarrow> jsval) option \<Rightarrow>
   (token \<Rightarrow> jsstring contextParams \<Rightarrow> jsval) \<Rightarrow> tokenizer \<Rightarrow> tokenizer" where
  "registerModifier modifierId condition modifier t =
     t\<lparr>events := subscribe ''newToken'' (Modifier modifierId condition modifier) (events t),
       registeredModifiers := registeredModifiers t @ [modifierId]\<rparr>"

definition getText :: "tokenizer \<Rightarrow> jsstring" where
  "getText t = concat (map char (tokens t))"



text \<open>
  \<^verbatim>\<open>registerContextChecker(contextName, contextStartCheck, contextEndCheck)\<close>; a
  predicate that is not a function is \<open>None\<close>.
\<close>

definition registerContextChecker ::
  "string \<Rightarrow> (jsstring contextParams \<Rightarrow> bool) option \<Rightarrow> (jsstring contextParams \<Rightarrow> bool) option \<Rightarrow>
   tokenizer \<Rightarrow> (string + contextChecker) \<times> tokenizer" where
  "registerContextChecker n contextStartCheck contextEndCheck t =
     (if getContext n t \<noteq> None
      then (Inl (''context name '' @ n @ '' is already registered.''), t)
      else case contextStartCheck of
             None \<Rightarrow> (Inl ''missing context start check.'', t)
           | Some s \<Rightarrow>
               (case contextEndCheck of
                  None \<Rightarrow> (Inl ''missing context end check.'', t)
                | Some e \<Rightarrow>
                    (Inr (ContextChecker n s e),
                     t\<lparr>contextCheckers := contextCheckers t @ [ContextChecker n s e]\<rparr>)))"

text \<open>
  \<^verbatim>\<open>getRangeTokens(range)\<close>: \<^verbatim>\<open>range.startIndex + range.endOffset\<close> with a
  \<^verbatim>\<open>null\<close> offset adds 0.
\<close>

definition getRangeTokens :: "contextRange \<Rightarrow> tokenizer \<Rightarrow> token list" where
  "getRangeTokens r t =
     (let endIndex = startIndex r + (case endOffset r of None \<Rightarrow> 0 | Some e \<Rightarrow> e)
      in js_slice (tokens t) (startIndex r) (Some endIndex))"

definition getContextRanges :: "string \<Rightarrow> tokenizer \<Rightarrow> string + contextRange list" where
  "getContextRanges n t =
     (case getContext n t of
        Some c \<Rightarrow> Inr (ranges c)
      | None \<Rightarrow> Inl (''context checker '' @ n @ '' is not registered.''))"

definition is_high_surrogate :: "16 word \<Rightarrow> bool" where
  "is_high_surrogate u = (0xD800 \<le> u \<and> u \<le> 0xDBFF)"

definition is_low_surrogate :: "16 word \<Rightarrow> bool" where
  "is_low_surrogate u = (0xDC00 \<le> u \<and> u \<le> 0xDFFF)"

text \<open>
  \<^verbatim>\<open>Array.from(text)\<close>: the string iterator yields one string per code point, a high
  surrogate followed by a low surrogate together, any other code unit alone.
\<close>

fun Array_from :: "jsstring \<Rightarrow> jsstring list" where
  "Array_from [] = []"
| "Array_from [u] = [[u]]"
| "Array_from (u # v # r) =
     (if is_high_surrogate u \<and> is_low_surrogate v
      then [u, v] # Array_from r
      else [u] # Array_from (v # r))"

text \<open>The body of the loop of \<^verbatim>\<open>tokenize\<close>.\<close>

definition tokenize_step :: "jsstring list \<Rightarrow> nat \<Rightarrow> tokenizer \<Rightarrow> tokenizer" where
  "tokenize_step chars i t =
     (let c = chars ! i;
          p = ContextParams chars (int i);
          t1 = notify ''next'' [EParams p] t;
          t2 = runContextCheck p t1;
          tok = Token c;
          t3 = t2\<lparr>tokens := tokens t2 @ [tok]\<rparr>
      in notify ''newToken'' [EToken tok, EParams p] t3)"

definition tokenize :: "jsstring \<Rightarrow> tokenizer \<Rightarrow> token list \<times> tokenizer" where
  "tokenize txt t =
     (let t1 = t\<lparr>tokens := []\<rparr>;
          t2 = resetContextsRanges t1;
          chars = Array_from txt;
          t3 = notify ''start'' [] t2;
          t4 = fold (tokenize_step chars) [0..<length chars] t3;
          t5 = notify ''end'' [ETokens (tokens t4)] t4
      in (tokens t5, t5))"

section \<open>The bidi driver\<close>

text \<open>
  \<^verbatim>\<open>query\<close> is the \<^verbatim>\<open>FeatureQuery\<close> of a font, known here by its \<^verbatim>\<open>supports\<close>
  oracle over a script and an optional feature tag.
\<close>

record bidi =
  baseDir :: string
  bidi_text :: "jsstring option"
  tokenizer :: tokenizer
  featuresTags :: "(string \<times> string list) list"
  query :: "(string \<Rightarrow> string option \<Rightarrow> bool) option"

text \<open>\<^verbatim>\<open>new Bidi(baseDir)\<close>; the text is \<^verbatim>\<open>undefined\<close> at first.\<close>

definition Bidi :: "string \<Rightarrow> bidi" where
  "Bidi dir =
     \<lparr>baseDir = dir, bidi_text = None, tokenizer = Tokenizer [], featuresTags = [], query = None\<rparr>"

text \<open>How a call ends: it returns, or it throws an \<^verbatim>\<open>Error\<close> with a message.\<close>

datatype outcome = Returned | Thrown string

text \<open>
  The context checks of \<^verbatim>\<open>Bidi.prototype.contextChecks\<close> and the three shapers are
  imported from modules that are not part of the sources at hand; they are parameters.
\<close>

record contextCheck =
  startCheck :: "jsstring contextParams \<Rightarrow> bool"
  endCheck :: "jsstring contextParams \<Rightarrow> bool"

record contextChecks =
  latinWordCheck :: contextCheck
  arabicWordCheck :: contextCheck
  arabicSentenceCheck :: contextCheck

record shapers =
  arabicPresentationForms :: "contextRange \<Rightarrow> bidi \<Rightarrow> bidi"
  arabicRequiredLigatures :: "contextRange \<Rightarrow> bidi \<Rightarrow> bidi"
  latinLigature :: "contextRange \<Rightarrow> bidi \<Rightarrow> bidi"

definition setText :: "jsstring \<Rightarrow> bidi \<Rightarrow> bidi" where
  "setText txt b = b\<lparr>bidi_text := Some txt\<rparr>"

text \<open>\<^verbatim>\<open>this.featuresTags.hasOwnProperty(script)\<close>\<close>

definition hasFeatures :: "string \<Rightarrow> bidi \<Rightarrow> bool" where
  "hasFeatures script b = (map_of (featuresTags b) script \<noteq> None)"

definition registerFeatures :: "string \<Rightarrow> string list \<Rightarrow> bidi \<Rightarrow> outcome \<times> bidi" where
  "registerFeatures script tags b =
     (case query b of
        None \<Rightarrow> (Thrown ''TypeError'', b)
      | Some supports \<Rightarrow>
          let supportedTags = filter (\<lambda>tag. supports script (Some tag)) tags
          in (Returned,
              case map_of (featuresTags b) script of
                None \<Rightarrow> b\<lparr>featuresTags := AList.update script supportedTags (featuresTags b)\<rparr>
              | Some old \<Rightarrow>
                  b\<lparr>featuresTags := AList.update script (old @ supportedTags) (featuresTags b)\<rparr>))"

fun applyFeatures_loop :: "(string \<times> string list) list \<Rightarrow> bidi \<Rightarrow> outcome \<times> bidi" where
  "applyFeatures_loop [] b = (Returned, b)"
| "applyFeatures_loop ((script, tags) # fs) b =
     (case query b of
        None \<Rightarrow> (Thrown ''TypeError'', b)
      | Some supports \<Rightarrow>
          if \<not> supports script None then applyFeatures_loop fs b
          else (case registerFeatures script tags b of
                  (Thrown m, b1) \<Rightarrow> (Thrown m, b1)
                | (Returned, b1) \<Rightarrow> applyFeatures_loop fs b1))"

text \<open>\<^verbatim>\<open>applyFeatures(font, features)\<close>; a font is known by its feature query.\<close>

definition applyFeatures ::
  "(string \<Rightarrow> string option \<Rightarrow> bool) option \<Rightarrow> (string \<times> string list) list \<Rightarrow> bidi \<Rightarrow> outcome \<times> bidi" where
  "applyFeatures font features b =
     (case font of
        None \<Rightarrow> (Thrown ''No valid font was provided to apply features'', b)
      | Some q \<Rightarrow>
          applyFeatures_loop features (if query b = None then b\<lparr>query := Some q\<rparr> else b))"

text \<open>\<^verbatim>\<open>registerModifier(modifierId, condition, modifier)\<close> of the driver.\<close>

definition bidi_registerModifier ::
  "string \<Rightarrow> (token \<Rightarrow> jsstring contextParams \<Rightarrow> jsval) option \<Rightarrow>
   (token \<Rightarrow> jsstring contextParams \<Rightarrow> jsval) \<Rightarrow> bidi \<Rightarrow> bidi" where
  "bidi_registerModifier modifierId condition modifier b =
     b\<lparr>tokenizer := registerModifier modifierId condition modifier (tokenizer b)\<rparr>"

definition checkContextReady :: "string \<Rightarrow> bidi \<Rightarrow> bool" where
  "checkContextReady contextId b = (getContext contextId (tokenizer b) \<noteq> None)"

definition checkGlyphIndexStatus :: "bidi \<Rightarrow> outcome" where
  "checkGlyphIndexStatus b =
     (if ''glyphIndex'' \<notin> set (registeredModifiers (tokenizer b))
      then Thrown ''glyphIndex modifier is required to apply arabic presentation features.''
      else Returned)"

text \<open>
  \<^verbatim>\<open>ranges.forEach(...)\<close> over the ranges of a context; \<^verbatim>\<open>getContextRanges\<close> of a
  context that is not registered returns a record without \<^verbatim>\<open>forEach\<close>.
\<close>

definition forEach_range :: "string \<Rightarrow> (contextRange \<Rightarrow> bidi \<Rightarrow> bidi) \<Rightarrow> bidi \<Rightarrow> outcome \<times> bidi" where
  "forEach_range n f b =
     (case getContextRanges n (tokenizer b) of
        Inl fail \<Rightarrow> (Thrown ''TypeError'', b)
      | Inr rs \<Rightarrow> (Returned, fold f rs b))"

text \<open>The body of the loop of \<^verbatim>\<open>reverseArabicSentences\<close>.\<close>

definition reverse_range :: "contextRange \<Rightarrow> bidi \<Rightarrow> bidi" where
  "reverse_range r b =
     (let rangeTokens = getRangeTokens r (tokenizer b)
      in b\<lparr>tokenizer :=
            snd (replaceRange (PNum (startIndex r))
                   (case endOffset r of None \<Rightarrow> PNull | Some e \<Rightarrow> PNum e)
                   (map IsToken (rev rangeTokens)) PUndefined (tokenizer b))\<rparr>)"

definition reverseArabicSentences :: "bidi \<Rightarrow> outcome \<times> bidi" where
  "reverseArabicSentences b = forEach_range ''arabicSentence'' reverse_range b"

definition applyArabicPresentationForms :: "shapers \<Rightarrow> bidi \<Rightarrow> outcome \<times> bidi" where
  "applyArabicPresentationForms sh b =
     (if \<not> hasFeatures ''arab'' b then (Returned, b)
      else case checkGlyphIndexStatus b of
             Thrown m \<Rightarrow> (Thrown m, b)
           | Returned \<Rightarrow> forEach_range ''arabicWord'' (arabicPresentationForms sh) b)"

definition applyArabicRequireLigatures :: "shapers \<Rightarrow> bidi \<Rightarrow> outcome \<times> bidi" where
  "applyArabicRequireLigatures sh b =
     (case map_of (featuresTags b) ''arab'' of
        None \<Rightarrow> (Returned, b)
      | Some tags \<Rightarrow>
          if ''rlig'' \<notin> set tags then (Returned, b)
          else case checkGlyphIndexStatus b of
                 Thrown m \<Rightarrow> (Thrown m, b)
               | Returned \<Rightarrow> forEach_range ''arabicWord'' (arabicRequiredLigatures sh) b)"

definition applyLatinLigatures :: "shapers \<Rightarrow> bidi \<Rightarrow> outcome \<times> bidi" where
  "applyLatinLigatures sh b =
     (case map_of (featuresTags b) ''latn'' of
        None \<Rightarrow> (Returned, b)
      | Some tags \<Rightarrow>
          if ''liga'' \<notin> set tags then (Returned, b)
          else case checkGlyphIndexStatus b of
                 Thrown m \<Rightarrow> (Thrown m, b)
               | Returned \<Rightarrow> forEach_range ''latinWord'' (latinLigature sh) b)"

text \<open>A statement after one that threw is not run.\<close>

definition and_then :: "outcome \<times> bidi \<Rightarrow> (bidi \<Rightarrow> outcome \<times> bidi) \<Rightarrow> outcome \<times> bidi" where
  "and_then r f = (case r of (Thrown m, b) \<Rightarrow> (Thrown m, b) | (Returned, b) \<Rightarrow> f b)"

definition applyFeaturesToContexts :: "shapers \<Rightarrow> bidi \<Rightarrow> outcome \<times> bidi" where
  "applyFeaturesToContexts sh b =
     and_then
       (and_then
          (if checkContextReady ''arabicWord'' b
           then and_then (applyArabicPresentationForms sh b) (applyArabicRequireLigatures sh)
           else (Returned, b))
          (\<lambda>b1. if checkContextReady ''latinWord'' b1 then applyLatinLigatures sh b1
                 else (Returned, b1)))
       (\<lambda>b2. if checkContextReady ''arabicSentence'' b2 then reverseArabicSentences b2
              else (Returned, b2))"

text \<open>The private \<^verbatim>\<open>#registerContextChecker(checkId)\<close>, the result not used.\<close>

definition bidi_registerContextChecker :: "string \<Rightarrow> contextCheck \<Rightarrow> bidi \<Rightarrow> bidi" where
  "bidi_registerContextChecker checkId chk b =
     b\<lparr>tokenizer :=
         snd (registerContextChecker checkId (Some (startCheck chk)) (Some (endCheck chk))
                (tokenizer b))\<rparr>"

text \<open>The private \<^verbatim>\<open>#tokenizeText()\<close>; the stored text is a string when it is called.\<close>

definition tokenizeText :: "contextChecks \<Rightarrow> bidi \<Rightarrow> bidi" where
  "tokenizeText checks b =
     (let b1 = bidi_registerContextChecker ''latinWord'' (latinWordCheck checks) b;
          b2 = bidi_registerContextChecker ''arabicWord'' (arabicWordCheck checks) b1;
          b3 = bidi_registerContextChecker ''arabicSentence'' (arabicSentenceCheck checks) b2
      in b3\<lparr>tokenizer :=
             snd (tokenize (case bidi_text b3 of None \<Rightarrow> [] | Some txt \<Rightarrow> txt) (tokenizer b3))\<rparr>)"

text \<open>
  \<^verbatim>\<open>processText(text)\<close>: \<^verbatim>\<open>if (!this.text || this.text !== text)\<close>; the empty
  string is falsy.
\<close>

definition processText :: "contextChecks \<Rightarrow> shapers \<Rightarrow> jsstring \<Rightarrow> bidi \<Rightarrow> outcome \<times> bidi" where
  "processText checks sh txt b =
     (if (case bidi_text b of None \<Rightarrow> True | Some old \<Rightarrow> old = [] \<or> old \<noteq> txt)
      then applyFeaturesToContexts sh (tokenizeText checks (setText txt b))
      else (Returned, b))"

text \<open>\<^verbatim>\<open>getBidiText(text)\<close>: the text of the tokens, unless \<^verbatim>\<open>processText\<close> threw.\<close>

definition getBidiText ::
  "contextChecks \<Rightarrow> shapers \<Rightarrow> jsstring \<Rightarrow> bidi \<Rightarrow> (string + jsstring) \<times> bidi" where
  "getBidiText checks sh txt b =
     (case processText checks sh txt b of
        (Thrown m, b1) \<Rightarrow> (Inl m, b1)
      | (Returned, b1) \<Rightarrow> (Inr (getText (tokenizer b1)), b1))"

section \<open>Notions used to state the properties\<close>

text \<open>The dispatches of an event in a trace, and the handler invocations it caused.\<close>

fun is_dispatch_of :: "string \<Rightarrow> entry \<Rightarrow> bool" where
  "is_dispatch_of e (Dispatch e' args) = (e' = e)"
| "is_dispatch_of e (Invoke h e' args) = False"


fun entry_event :: "entry \<Rightarrow> string" where
  "entry_event (Dispatch e args) = e"
| "entry_event (Invoke h e args) = e"

definition dispatched :: "string \<Rightarrow> entry list \<Rightarrow> entry list" where
  "dispatched e tr = filter (is_dispatch_of e) tr"


text \<open>The invocations of observers among the subscribers of an event, in order.\<close>

fun observer_entries :: "string \<Rightarrow> earg list \<Rightarrow> subscriber list \<Rightarrow> entry list" where
  "observer_entries e args [] = []"
| "observer_entries e args (Observer h # subs) = Invoke h e args # observer_entries e args subs"
| "observer_entries e args (UpdateContextsRanges # subs) = observer_entries e args subs"
| "observer_entries e args (Modifier m c f # subs) = observer_entries e args subs"

definition subscribers_of :: "string \<Rightarrow> tokenizer \<Rightarrow> subscriber list" where
  "subscribers_of e t = (case map_of (events t) e of None \<Rightarrow> [] | Some subs \<Rightarrow> subs)"

fun is_update :: "subscriber \<Rightarrow> bool" where
  "is_update UpdateContextsRanges = True"
| "is_update (Observer h) = False"
| "is_update (Modifier m c f) = False"

text \<open>
  \<^verbatim>\<open>updateContextsRanges\<close> is subscribed to an event once, as \<^verbatim>\<open>initializeCoreEvents\<close>
  does for the six editing events.
\<close>

definition updates_once :: "string \<Rightarrow> tokenizer \<Rightarrow> bool" where
  "updates_once e t = (length (filter is_update (subscribers_of e t)) = 1)"

text \<open>The events raised by a context check.\<close>

definition scan_entry :: "entry \<Rightarrow> bool" where
  "scan_entry x = (entry_event x = ''contextStart'' \<or> entry_event x = ''contextEnd'')"

text \<open>A call given to \<^verbatim>\<open>composeRUD\<close> that lists every argument before \<^verbatim>\<open>silent\<close>.\<close>

fun lists_all_arguments :: "rud \<Rightarrow> bool" where
  "lists_all_arguments (RUD_removeRange_start s) = False"
| "lists_all_arguments r = True"

text \<open>A tokenizer used where a property is evaluated: a new tokenizer after a text.\<close>

definition tokenizer_abcd :: tokenizer where
  "tokenizer_abcd = snd (tokenize [97, 98, 99, 100] (Tokenizer []))"

text \<open>
  A string of one Unicode scalar value: a code unit that is not a surrogate, or a high
  surrogate followed by a low one. A text is well formed when it is a sequence of
  scalar values, that is, when it has no lone surrogate.
\<close>

fun scalar_string :: "jsstring \<Rightarrow> bool" where
  "scalar_string [u] = (\<not> is_high_surrogate u \<and> \<not> is_low_surrogate u)"
| "scalar_string [u, v] = (is_high_surrogate u \<and> is_low_surrogate v)"
| "scalar_string cs = False"

definition well_formed :: "jsstring \<Rightarrow> bool" where
  "well_formed txt = list_all scalar_string (Array_from txt)"

text \<open>
  A range that lies in a vector of \<open>len\<close> tokens, and the vector with the tokens of the
  range in reverse order.
\<close>

definition in_bounds :: "nat \<Rightarrow> contextRange \<Rightarrow> bool" where
  "in_bounds len r =
     (case endOffset r of
        None \<Rightarrow> False
      | Some e \<Rightarrow> 0 \<le> startIndex r \<and> startIndex r < int len \<and> 0 \<le> e \<and> startIndex r + e \<le> int len)"

definition reversed_in_place :: "contextRange \<Rightarrow> token list \<Rightarrow> token list" where
  "reversed_in_place r ts =
     (let s = nat (startIndex r);
          n = nat (case endOffset r of None \<Rightarrow> 0 | Some e \<Rightarrow> e)
      in take s ts @ rev (take n (drop s ts)) @ drop (s + n) ts)"

text \<open>
  A closed range that ends at an index of a scan over \<open>n\<close> characters: its start and
  offset add up to that index plus one. All ranges of a tokenizer are of this kind.
\<close>

definition closed_within :: "nat \<Rightarrow> contextRange \<Rightarrow> bool" where
  "closed_within n r =
     (case endOffset r of
        None \<Rightarrow> False
      | Some e \<Rightarrow> 1 \<le> startIndex r + e \<and> startIndex r + e \<le> int n)"

definition ranges_within :: "nat \<Rightarrow> tokenizer \<Rightarrow> bool" where
  "ranges_within n t = list_all (\<lambda>c. list_all (closed_within n) (ranges c)) (contextCheckers t)"

text \<open>
  The ranges stored in the registered context checkers, in registration order; the
  ranges obtained by resetting all ranges and running the context check at every index
  of the token vector; and the same from scratch, where a range left open by an earlier
  scan is dropped as well.
\<close>

definition stored_ranges :: "tokenizer \<Rightarrow> contextRange list list" where
  "stored_ranges t = map ranges (contextCheckers t)"

definition recomputed_ranges :: "tokenizer \<Rightarrow> contextRange list list" where
  "recomputed_ranges t =
     map ranges (contextCheckers (scan (map char (tokens t)) (resetContextsRanges t)))"

definition cleared :: "contextChecker \<Rightarrow> contextChecker" where
  "cleared c = c\<lparr>ranges := [], openRange := None\<rparr>"

definition clearContexts :: "tokenizer \<Rightarrow> tokenizer" where
  "clearContexts t = t\<lparr>contextCheckers := map cleared (contextCheckers t)\<rparr>"

definition fresh_ranges :: "tokenizer \<Rightarrow> contextRange list list" where
  "fresh_ranges t = map ranges (contextCheckers (scan (map char (tokens t)) (clearContexts t)))"

definition no_open_range :: "tokenizer \<Rightarrow> bool" where
  "no_open_range t = list_all (\<lambda>c. openRange c = None) (contextCheckers t)"

text \<open>The editing operations as calls, \<^verbatim>\<open>composeRUD\<close> among them (it takes no \<^verbatim>\<open>silent\<close>).\<close>

datatype edit =
    InsertToken "item list" jsprim
  | RemoveToken jsprim
  | RemoveRange jsprim jsprim
  | ReplaceToken jsprim item
  | ReplaceRange jsprim jsprim "item list"
  | ComposeRUD "rud list"

fun apply_edit :: "edit \<Rightarrow> jsprim \<Rightarrow> tokenizer \<Rightarrow> result \<times> tokenizer" where
  "apply_edit (InsertToken items i) silent t = insertToken items i silent t"
| "apply_edit (RemoveToken i) silent t = removeToken i silent t"
| "apply_edit (RemoveRange s off) silent t = removeRange s off silent t"
| "apply_edit (ReplaceToken i itm) silent t = replaceToken i itm silent t"
| "apply_edit (ReplaceRange s off items) silent t = replaceRange s off items silent t"
| "apply_edit (ComposeRUD rs) silent t = composeRUD rs t"

fun complete_calls :: "edit \<Rightarrow> bool" where
  "complete_calls (ComposeRUD rs) = list_all lists_all_arguments rs"
| "complete_calls ed = True"

text \<open>
  Tokenizers for the evaluation of the stored ranges: one checker \<open>w\<close> that starts at
  \<open>a\<close> and ends at \<open>b\<close>, registered before the text \<open>a\<close> is tokenized (its range stays
  open); and a checker that starts and ends at every character, registered after the
  text \<open>ab\<close> was tokenized.
\<close>

definition tokenizer_open_a :: tokenizer where
  "tokenizer_open_a =
     snd (tokenize [97]
       (snd (registerContextChecker ''w''
          (Some (\<lambda>p. current p = Elem [97])) (Some (\<lambda>p. current p = Elem [98]))
          (Tokenizer []))))"

definition tokenizer_late_checker :: tokenizer where
  "tokenizer_late_checker =
     snd (registerContextChecker ''each'' (Some (\<lambda>p. True)) (Some (\<lambda>p. True))
       (snd (tokenize [97, 98] (Tokenizer []))))"

text \<open>The same checker \<open>w\<close> before the text \<open>ab\<close>: its range is closed at the end.\<close>

definition tokenizer_closed_ab :: tokenizer where
  "tokenizer_closed_ab =
     snd (tokenize [97, 98]
       (snd (registerContextChecker ''w''
          (Some (\<lambda>p. current p = Elem [97])) (Some (\<lambda>p. current p = Elem [98]))
          (Tokenizer []))))"

text \<open>
  The steps of \<^verbatim>\<open>applyFeaturesToContexts\<close> that come before the reversal of the Arabic
  sentences: the Arabic presentation forms and required ligatures when \<^verbatim>\<open>arabicWord\<close> is
  registered, then the Latin ligatures when \<^verbatim>\<open>latinWord\<close> is registered.
\<close>

definition shaping_steps :: "shapers \<Rightarrow> bidi \<Rightarrow> outcome \<times> bidi" where
  "shaping_steps sh b =
     and_then
       (if checkContextReady ''arabicWord'' b
        then and_then (applyArabicPresentationForms sh b) (applyArabicRequireLigatures sh)
        else (Returned, b))
       (\<lambda>b1. if checkContextReady ''latinWord'' b1 then applyLatinLigatures sh b1
              else (Returned, b1))"

text \<open>The message of the error thrown when the \<^verbatim>\<open>glyphIndex\<close> modifier is missing.\<close>

definition glyphIndex_required :: string where
  "glyphIndex_required = ''glyphIndex modifier is required to apply arabic presentation features.''"

text \<open>
  Some step before the reversal has its context registered and its feature requested: any
  tag for the script \<^verbatim>\<open>arab\<close>, or the tag \<^verbatim>\<open>liga\<close> for the script \<^verbatim>\<open>latn\<close>.
\<close>

definition shaping_requested :: "bidi \<Rightarrow> bool" where
  "shaping_requested b \<longleftrightarrow>
     (checkContextReady ''arabicWord'' b \<and> hasFeatures ''arab'' b)
     \<or> (checkContextReady ''latinWord'' b
         \<and> (case map_of (featuresTags b) ''latn'' of None \<Rightarrow> False | Some tags \<Rightarrow> ''liga'' \<in> set tags))"

text \<open>
  The number of invocations of \<^verbatim>\<open>tokenize\<close> so far: \<^verbatim>\<open>tokenize\<close> dispatches \<^verbatim>\<open>start\<close>
  once per call, and nothing else dispatches it.
\<close>

definition tokenize_calls :: "bidi \<Rightarrow> nat" where
  "tokenize_calls b = length (dispatched ''start'' (trace (tokenizer b)))"

text \<open>
  Modelled from the spec: the context checks latinWord, arabicWord and arabicSentence
  (features/latn/contextCheck, features/arab/contextCheck), which are not among the
  sources. This is an instance of them for the evaluations below, with the character
  classes cut down to the Arabic block U+0600..U+06FF, the ASCII letters and digits,
  and the space. A word starts at a character of the script that follows none and ends
  at one that precedes none; an Arabic sentence starts at an Arabic character and ends
  before the end of the text or before a character that is neither Arabic nor a space
  with Arabic text after it.
\<close>

fun isArabicChar :: "jsstring js_ref \<Rightarrow> bool" where
  "isArabicChar (Elem [u]) = (0x0600 \<le> u \<and> u \<le> 0x06FF)"
| "isArabicChar c = False"

fun isLatinChar :: "jsstring js_ref \<Rightarrow> bool" where
  "isLatinChar (Elem [u]) =
     ((0x41 \<le> u \<and> u \<le> 0x5A) \<or> (0x61 \<le> u \<and> u \<le> 0x7A) \<or> (0x30 \<le> u \<and> u \<le> 0x39))"
| "isLatinChar c = False"

definition example_checks :: contextChecks where
  "example_checks =
     \<lparr>latinWordCheck =
        \<lparr>startCheck = (\<lambda>p. isLatinChar (current p) \<and> \<not> isLatinChar (get p (- 1))),
         endCheck = (\<lambda>p. isLatinChar (current p) \<and> \<not> isLatinChar (get p 1))\<rparr>,
      arabicWordCheck =
        \<lparr>startCheck = (\<lambda>p. isArabicChar (current p) \<and> \<not> isArabicChar (get p (- 1))),
         endCheck = (\<lambda>p. isArabicChar (current p) \<and> \<not> isArabicChar (get p 1))\<rparr>,
      arabicSentenceCheck =
        \<lparr>startCheck = (\<lambda>p. isArabicChar (current p)),
         endCheck = (\<lambda>p. get p 1 = Null
                      \<or> (\<not> isArabicChar (get p 1)
                          \<and> \<not> (get p 1 = Elem [0x20]
                                \<and> list_ex (\<lambda>c. isArabicChar (Elem c)) (lookahead p))))\<rparr>\<rparr>"

text \<open>Shapers that leave the bidi driver as it is, for the evaluations below.\<close>

definition no_shaping :: shapers where
  "no_shaping =
     \<lparr>arabicPresentationForms = (\<lambda>r b. b),
      arabicRequiredLigatures = (\<lambda>r b. b),
      latinLigature = (\<lambda>r b. b)\<rparr>"

text \<open>
  A driver for the evaluations below: a new \<^verbatim>\<open>Bidi\<close>; when \<open>requested\<close>,
  \<^verbatim>\<open>applyFeatures\<close> with a font that supports everything and the tag \<^verbatim>\<open>init\<close> for the
  script \<^verbatim>\<open>arab\<close>; when \<open>withGlyphIndex\<close>, a \<^verbatim>\<open>glyphIndex\<close> modifier; then the text of
  two Arabic letters and an exclamation mark is set and tokenized, as \<^verbatim>\<open>processText\<close>
  does before it calls \<^verbatim>\<open>applyFeaturesToContexts\<close>.
\<close>

definition example_driver :: "bool \<Rightarrow> bool \<Rightarrow> bidi" where
  "example_driver requested withGlyphIndex =
     tokenizeText example_checks (setText [0x645, 0x631, 0x21]
       ((if withGlyphIndex then bidi_registerModifier ''glyphIndex'' None (\<lambda>t p. JNum 1) else id)
          ((if requested
            then (\<lambda>b. snd (applyFeatures (Some (\<lambda>script tag. True)) [(''arab'', [''init''])] b))
            else id) (Bidi ''ltr''))))"

section \<open>What the scan and the event bus leave unchanged\<close>

lemma apply_modifier_fields:
  "contextCheckers (apply_modifier m c f args t) = contextCheckers t"
  "events (apply_modifier m c f args t) = events t"
  "registeredModifiers (apply_modifier m c f args t) = registeredModifiers t"
  "trace (apply_modifier m c f args t) = trace t"
  by (auto simp add: apply_modifier_def Let_def split: option.splits)

lemma char_setState: "char (snd (setState k v tok)) = char tok"
  by (simp add: setState_def assign_state_def Let_def split: jsval.splits)

lemma apply_modifier_chars:
  "map char (tokens (apply_modifier m c f args t)) = map char (tokens t)"
proof -
  have "map char (butlast xs @ [snd (setState m v (last xs))]) = map char xs" if "xs \<noteq> []" for v xs
  proof -
    have "map char (butlast xs @ [snd (setState m v (last xs))]) = map char (butlast xs @ [last xs])"
      by (simp add: char_setState)
    then show ?thesis using that by simp
  qed
  then show ?thesis
    by (simp add: apply_modifier_def Let_def split: option.splits)
qed

lemma apply_modifier_other: "newToken_params args = None \<Longrightarrow> apply_modifier m c f args t = t"
  by (simp add: apply_modifier_def)

lemma notify_one_fields:
  "contextCheckers (notify_one e args s t) = contextCheckers t"
  "events (notify_one e args s t) = events t"
  "registeredModifiers (notify_one e args s t) = registeredModifiers t"
  "map char (tokens (notify_one e args s t)) = map char (tokens t)"
  by (cases s; simp add: apply_modifier_fields apply_modifier_chars)+

lemma notify_one_tokens: "newToken_params args = None \<Longrightarrow> tokens (notify_one e args s t) = tokens t"
  by (cases s) (simp_all add: apply_modifier_other)

lemma fold_notify_one_fields:
  "contextCheckers (fold (notify_one e args) subs t) = contextCheckers t"
  "events (fold (notify_one e args) subs t) = events t"
  "registeredModifiers (fold (notify_one e args) subs t) = registeredModifiers t"
  "map char (tokens (fold (notify_one e args) subs t)) = map char (tokens t)"
  by (induction subs arbitrary: t; simp add: notify_one_fields)+

lemma fold_notify_one_tokens:
  "newToken_params args = None \<Longrightarrow> tokens (fold (notify_one e args) subs t) = tokens t"
  by (induction subs arbitrary: t) (simp_all add: notify_one_tokens)

lemma notify_fields:
  "contextCheckers (notify e args t) = contextCheckers t"
  "events (notify e args t) = events t"
  "registeredModifiers (notify e args t) = registeredModifiers t"
  "map char (tokens (notify e args t)) = map char (tokens t)"
  by (simp_all add: notify_def Let_def fold_notify_one_fields split: option.splits)

lemma notify_tokens: "newToken_params args = None \<Longrightarrow> tokens (notify e args t) = tokens t"
  by (simp add: notify_def Let_def fold_notify_one_tokens split: option.splits)

lemma update_context_fields:
  "tokens (update_context n f t) = tokens t"
  "events (update_context n f t) = events t"
  "registeredModifiers (update_context n f t) = registeredModifiers t"
  "trace (update_context n f t) = trace t"
  by (simp_all add: update_context_def)

lemma setEndOffset_fields:
  assumes "setEndOffset off n t = Some (r, t2)"
  shows "tokens t2 = tokens t" "events t2 = events t" "registeredModifiers t2 = registeredModifiers t"
  using assms by (auto simp add: setEndOffset_def Let_def update_context_fields split: option.splits)

lemma newToken_params_context [simp]:
  "newToken_params [EName n, x] = None"
  by simp

lemma check_one_fields:
  "tokens (check_one p c t) = tokens t"
  "events (check_one p c t) = events t"
  "registeredModifiers (check_one p c t) = registeredModifiers t"
  by (auto simp add: check_one_def Let_def notify_fields notify_tokens update_context_fields
        setEndOffset_fields split: option.splits)

lemma fold_check_one_fields:
  "tokens (fold (check_one p) cs t) = tokens t"
  "events (fold (check_one p) cs t) = events t"
  "registeredModifiers (fold (check_one p) cs t) = registeredModifiers t"
  by (induction cs arbitrary: t; simp add: check_one_fields)+

lemma runContextCheck_fields:
  "tokens (runContextCheck p t) = tokens t"
  "events (runContextCheck p t) = events t"
  "registeredModifiers (runContextCheck p t) = registeredModifiers t"
  by (simp_all add: runContextCheck_def fold_check_one_fields)

lemma fold_runContextCheck_fields:
  "tokens (fold (\<lambda>i. runContextCheck (ContextParams chars (int i))) is t) = tokens t"
  "events (fold (\<lambda>i. runContextCheck (ContextParams chars (int i))) is t) = events t"
  "registeredModifiers (fold (\<lambda>i. runContextCheck (ContextParams chars (int i))) is t) = registeredModifiers t"
  by (induction "is" arbitrary: t; simp add: runContextCheck_fields)+

lemma scan_fields:
  "tokens (scan chars t) = tokens t"
  "events (scan chars t) = events t"
  "registeredModifiers (scan chars t) = registeredModifiers t"
  by (simp_all add: scan_def fold_runContextCheck_fields)

lemma resetContextsRanges_fields:
  "tokens (resetContextsRanges t) = tokens t"
  "events (resetContextsRanges t) = events t"
  "registeredModifiers (resetContextsRanges t) = registeredModifiers t"
  "trace (resetContextsRanges t) = trace t"
  by (simp_all add: resetContextsRanges_def)

lemma updateContextsRanges_fields:
  "tokens (updateContextsRanges t) = tokens t"
  "events (updateContextsRanges t) = events t"
  "registeredModifiers (updateContextsRanges t) = registeredModifiers t"
  by (simp_all add: updateContextsRanges_def Let_def notify_fields notify_tokens scan_fields
        resetContextsRanges_fields)

lemma dispatch_one_fields:
  "events (dispatch_one e args s t) = events t"
  "registeredModifiers (dispatch_one e args s t) = registeredModifiers t"
  "map char (tokens (dispatch_one e args s t)) = map char (tokens t)"
  by (cases s; simp add: updateContextsRanges_fields notify_one_fields apply_modifier_fields
        apply_modifier_chars)+

lemma dispatch_one_tokens:
  "newToken_params args = None \<Longrightarrow> tokens (dispatch_one e args s t) = tokens t"
  by (cases s) (simp_all add: updateContextsRanges_fields apply_modifier_other)

lemma fold_dispatch_one_fields:
  "events (fold (dispatch_one e args) subs t) = events t"
  "registeredModifiers (fold (dispatch_one e args) subs t) = registeredModifiers t"
  "map char (tokens (fold (dispatch_one e args) subs t)) = map char (tokens t)"
  by (induction subs arbitrary: t; simp add: dispatch_one_fields)+

lemma fold_dispatch_one_tokens:
  "newToken_params args = None \<Longrightarrow> tokens (fold (dispatch_one e args) subs t) = tokens t"
  by (induction subs arbitrary: t) (simp_all add: dispatch_one_tokens)

lemma dispatch_fields:
  "events (dispatch e args t) = events t"
  "registeredModifiers (dispatch e args t) = registeredModifiers t"
  "map char (tokens (dispatch e args t)) = map char (tokens t)"
  by (simp_all add: dispatch_def Let_def fold_dispatch_one_fields split: option.splits)

lemma dispatch_tokens:
  "newToken_params args = None \<Longrightarrow> tokens (dispatch e args t) = tokens t"
  by (simp add: dispatch_def Let_def fold_dispatch_one_tokens split: option.splits)

section \<open>Properties of Token and ContextParams\<close>

lemma backtrack_ContextParams:
  "0 \<le> i \<Longrightarrow> i < int (length cs) \<Longrightarrow> backtrack (ContextParams cs i) = take (nat i) cs"
  by (simp add: ContextParams_def js_slice_def relative_index_def Let_def min_def)

lemma lookahead_ContextParams:
  "0 \<le> i \<Longrightarrow> i < int (length cs) \<Longrightarrow> lookahead (ContextParams cs i) = drop (nat (i + 1)) cs"
  by (simp add: ContextParams_def js_slice_def relative_index_def Let_def min_def)

text \<open>
  C8. For a character vector \<open>cs\<close>, an index \<open>0 \<le> i < length cs\<close> and an offset \<open>off\<close>:
  \<open>get\<close> returns \<open>cs[i + off]\<close> when \<open>-i \<le> off \<le> length cs - 1 - i\<close>, and
  \<^verbatim>\<open>null\<close> for every other offset.
\<close>

theorem ContextParams_get:
  assumes "0 \<le> i" and "i < int (length cs)"
  shows "get (ContextParams cs i) off =
           (if - i \<le> off \<and> off \<le> int (length cs) - 1 - i
            then Elem (cs ! nat (i + off)) else Null)"
proof -
  have b: "backtrack (ContextParams cs i) = take (nat i) cs"
    using assms by (rule backtrack_ContextParams)
  have l: "lookahead (ContextParams cs i) = drop (nat (i + 1)) cs"
    using assms by (rule lookahead_ContextParams)
  have c: "current (ContextParams cs i) = Elem (cs ! nat i)"
    using assms by (simp add: ContextParams_def js_nth_def)
  consider "off = 0" | "off < 0" "- i \<le> off" | "off < 0" "off < - i"
    | "0 < off" "off \<le> int (length cs) - 1 - i" | "0 < off" "int (length cs) - 1 - i < off"
    by linarith
  then show ?thesis
  proof cases
    case 1
    then show ?thesis using assms c by (simp add: get_def)
  next
    case 2
    have len: "length (take (nat i) cs) = nat i" using assms by simp
    have "js_slice (take (nat i) cs) off None = drop (nat (i + off)) (take (nat i) cs)"
      using 2 assms by (simp add: js_slice_def relative_index_def Let_def len)
    moreover have "0 < length (drop (nat (i + off)) (take (nat i) cs))"
      using 2 assms by simp
    moreover have "drop (nat (i + off)) (take (nat i) cs) ! 0 = cs ! nat (i + off)"
      using 2 assms by (simp add: nat_add_distrib)
    ultimately have "js_nth (js_slice (take (nat i) cs) off None) 0 = Elem (cs ! nat (i + off))"
      unfolding js_nth_def by simp
    then show ?thesis using 2 assms b by (simp add: get_def)
  next
    case 3
    then show ?thesis using assms b by (simp add: get_def)
  next
    case 4
    have "js_nth (drop (nat (i + 1)) cs) (off - 1) = Elem (cs ! nat (i + off))"
    proof -
      have "nat (i + 1) + nat (off - 1) = nat (i + off)" using 4 assms by linarith
      then show ?thesis using 4 assms by (simp add: js_nth_def)
    qed
    then show ?thesis using 4 assms l by (simp add: get_def)
  next
    case 5
    then show ?thesis using assms l by (simp add: get_def)
  qed
qed

theorem ContextParams_get_witness:
  "get (ContextParams [10, 20, 30 :: nat] 1) (- 1) = Elem 10
   \<and> get (ContextParams [10, 20, 30 :: nat] 1) 1 = Elem 30
   \<and> get (ContextParams [10, 20, 30 :: nat] 1) 2 = Null"
  using ContextParams_get [of 1 "[10, 20, 30 :: nat]" "- 1"]
    ContextParams_get [of 1 "[10, 20, 30 :: nat]" 1]
    ContextParams_get [of 1 "[10, 20, 30 :: nat]" 2]
  by simp

lemma state_at_setState:
  "writes_own k t \<Longrightarrow> state_at array_property (snd (setState k v t)) k = Value v"
  by (simp add: state_at_def setState_def assign_state_def Let_def update_conv')

lemma writes_own_not_proto: "k \<noteq> ''__proto__'' \<Longrightarrow> writes_own k t"
  by (simp add: writes_own_def)

lemma getState_Token:
  "getState array_property k (Token c) =
     (if k = ''__proto__'' then Builtin ''Object.prototype''
      else if k \<in> set Object_prototype_names then Builtin k else Value JNull)"
  by (simp add: getState_def state_at_def Token_def proto_read_def)

text \<open>
  C10 (as stated, refuted). The state object inherits from \<^verbatim>\<open>Object.prototype\<close>: for the key
  \<^verbatim>\<open>constructor\<close> a token that was never written reads back the inherited function, while
  after \<^verbatim>\<open>setState('constructor', 0)\<close> \<open>getState\<close> returns \<^verbatim>\<open>null\<close>: the stored \<open>0\<close> is told
  apart from the entry never written. This holds whatever the properties of arrays are.
\<close>

theorem getState_inherited_key_counterexample:
  "\<forall>array_property.
     getState array_property ''constructor'' (snd (setState ''constructor'' (JNum 0) (Token [97])))
       = Value JNull
     \<and> getState array_property ''constructor'' (Token [97]) = Builtin ''constructor''
     \<and> getState array_property ''__proto__'' (snd (setState ''__proto__'' (JNum 0) (Token [97])))
       = Builtin ''Object.prototype''"
  by (simp add: getState_def state_at_def setState_def assign_state_def writes_own_def
      proto_read_def Token_def Object_prototype_names_def Let_def)

text \<open>
  C10 (amended). For every token and every key, \<open>getState\<close> returns \<^verbatim>\<open>null\<close> whenever
  \<^verbatim>\<open>state[k]\<close> is falsy; in a state object that still has \<^verbatim>\<open>Object.prototype\<close> as its
  prototype, a key that was never written and is not inherited is such a key. A falsy value
  (\<open>0\<close>, \<^verbatim>\<open>false\<close>, the empty string, \<^verbatim>\<open>undefined\<close>, \<^verbatim>\<open>null\<close>, \<^verbatim>\<open>NaN\<close>) stored by
  \<open>setState\<close> under a key other than \<^verbatim>\<open>__proto__\<close> reads back as \<^verbatim>\<open>null\<close>, and for a key
  that is not inherited this is exactly what a new token, never written, gives. For an
  inherited name (\<^verbatim>\<open>constructor\<close>, \<^verbatim>\<open>toString\<close>, ..., \<^verbatim>\<open>__proto__\<close>) a new token gives the
  inherited function or object, not \<^verbatim>\<open>null\<close>.
\<close>

theorem getState_falsy_null:
  "(\<not> truthy_read (state_at array_property t k) \<longrightarrow> getState array_property k t = Value JNull)
   \<and> (map_of (state t) k = None \<and> state_prototype t = ObjectPrototype
        \<and> k \<notin> set Object_prototype_names \<and> k \<noteq> ''__proto__'' \<longrightarrow>
        getState array_property k t = Value JNull)
   \<and> (v \<in> {JNum 0, JBool False, JStr [], JUndefined, JNull, JNaN} \<and> k \<noteq> ''__proto__'' \<longrightarrow>
        getState array_property k (snd (setState k v t)) = Value JNull)
   \<and> (v \<in> {JNum 0, JBool False, JStr [], JUndefined, JNull, JNaN} \<and> k \<noteq> ''__proto__''
        \<and> k \<notin> set Object_prototype_names \<longrightarrow>
        getState array_property k (snd (setState k v t)) = getState array_property k (Token c))
   \<and> (k \<in> set Object_prototype_names \<or> k = ''__proto__'' \<longrightarrow>
        getState array_property k (Token c) \<noteq> Value JNull
        \<and> truthy_read (getState array_property k (Token c)))"
proof -
  have falsy: "\<not> truthy_read (state_at array_property t k) \<longrightarrow>
      getState array_property k t = Value JNull"
    by (simp add: getState_def)
  have absent: "map_of (state t) k = None \<and> state_prototype t = ObjectPrototype
        \<and> k \<notin> set Object_prototype_names \<and> k \<noteq> ''__proto__'' \<longrightarrow>
        getState array_property k t = Value JNull"
    by (simp add: getState_def state_at_def)
  have stored: "getState array_property k (snd (setState k v t)) = Value JNull"
    if "\<not> truthy v" "k \<noteq> ''__proto__''"
    using that by (simp add: getState_def state_at_setState writes_own_not_proto)
  have fv: "\<not> truthy v" if "v \<in> {JNum 0, JBool False, JStr [], JUndefined, JNull, JNaN}"
    using that by auto
  have fresh: "getState array_property k (Token c) = Value JNull"
    if "k \<noteq> ''__proto__''" "k \<notin> set Object_prototype_names"
    using that by (simp add: getState_Token)
  have inherited: "k \<in> set Object_prototype_names \<or> k = ''__proto__'' \<longrightarrow>
        getState array_property k (Token c) \<noteq> Value JNull
        \<and> truthy_read (getState array_property k (Token c))"
    by (simp add: getState_Token)
  from falsy absent stored fv fresh inherited show ?thesis by simp
qed

theorem getState_falsy_null_witness:
  "\<forall>array_property.
     getState array_property ''glyphIndex'' (snd (setState ''glyphIndex'' (JNum 0) (Token [97])))
       = Value JNull
     \<and> getState array_property ''deleted'' (snd (setState ''deleted'' (JBool False) (Token [97])))
       = Value JNull
     \<and> getState array_property ''glyphIndex'' (Token [97]) = Value JNull
     \<and> getState array_property ''toString'' (Token [97]) \<noteq> Value JNull
     \<and> state_at array_property (snd (setState ''glyphIndex'' (JNum 0) (Token [97]))) ''glyphIndex''
       = Value (JNum 0)"
proof
  fix array_property :: "jsval list \<Rightarrow> string \<Rightarrow> js_read"
  have a: "JNum 0 \<in> {JNum 0, JBool False, JStr [], JUndefined, JNull, JNaN}" by simp
  have b: "JBool False \<in> {JNum 0, JBool False, JStr [], JUndefined, JNull, JNaN}" by simp
  have c: "map_of (state (Token [97])) ''glyphIndex'' = None
           \<and> state_prototype (Token [97]) = ObjectPrototype
           \<and> ''glyphIndex'' \<notin> set Object_prototype_names"
    by (simp add: Token_def Object_prototype_names_def)
  have d: "state_at array_property (snd (setState ''glyphIndex'' (JNum 0) (Token [97])))
             ''glyphIndex'' = Value (JNum 0)"
    by (simp add: state_at_def setState_def assign_state_def writes_own_def Token_def Let_def)
  have e: "''glyphIndex'' \<noteq> ''__proto__''" "''deleted'' \<noteq> ''__proto__''"
    "''toString'' \<in> set Object_prototype_names"
    by (simp_all add: Object_prototype_names_def)
  note g = getState_falsy_null [of array_property "Token [97]" "''glyphIndex''" "JNum 0" "[97]"]
  note f = getState_falsy_null [of array_property "Token [97]" "''deleted''" "JBool False" "[97]"]
  note i = getState_falsy_null [of array_property "Token [97]" "''toString''" "JNum 0" "[97]"]
  have 1: "getState array_property ''glyphIndex''
             (snd (setState ''glyphIndex'' (JNum 0) (Token [97]))) = Value JNull"
    by (rule g [THEN conjunct2, THEN conjunct2, THEN conjunct1, THEN mp, OF conjI, OF a e(1)])
  have 2: "getState array_property ''deleted''
             (snd (setState ''deleted'' (JBool False) (Token [97]))) = Value JNull"
    by (rule f [THEN conjunct2, THEN conjunct2, THEN conjunct1, THEN mp, OF conjI, OF b e(2)])
  have 3: "getState array_property ''glyphIndex'' (Token [97]) = Value JNull"
    using g [THEN conjunct2, THEN conjunct1] c e(1) by (simp only: simp_thms)
  have 4: "getState array_property ''toString'' (Token [97]) \<noteq> Value JNull"
    using i [THEN conjunct2, THEN conjunct2, THEN conjunct2, THEN conjunct2] e(3)
    by (simp only: simp_thms)
  from 1 2 3 4 d
  show "getState array_property ''glyphIndex'' (snd (setState ''glyphIndex'' (JNum 0) (Token [97])))
       = Value JNull
     \<and> getState array_property ''deleted'' (snd (setState ''deleted'' (JBool False) (Token [97])))
       = Value JNull
     \<and> getState array_property ''glyphIndex'' (Token [97]) = Value JNull
     \<and> getState array_property ''toString'' (Token [97]) \<noteq> Value JNull
     \<and> state_at array_property (snd (setState ''glyphIndex'' (JNum 0) (Token [97]))) ''glyphIndex''
       = Value (JNum 0)"
    by (simp only: simp_thms)
qed

section \<open>Editing operations: indices and offsets\<close>

lemma relative_index_bounds:
  "0 \<le> relative_index len i" "relative_index len i \<le> int len"
  by (simp_all add: relative_index_def)

lemma js_splice_insert:
  "js_splice xs s 0 ys =
     ([], take (nat (relative_index (length xs) s)) xs @ ys
          @ drop (nat (relative_index (length xs) s)) xs)"
  using relative_index_bounds [of "length xs" s]
  by (simp add: js_splice_def Let_def min_def)

lemma js_splice_nothing: "js_splice xs s 0 [] = ([], xs)"
  by (simp add: js_splice_insert)

text \<open>
  With \<^verbatim>\<open>null\<close> as the offset, \<^verbatim>\<open>isNaN(null)\<close> is false (\<^verbatim>\<open>Number(null)\<close> is 0), the
  offset stays \<^verbatim>\<open>null\<close> and \<^verbatim>\<open>splice\<close> deletes 0 elements, whatever the start.
\<close>

lemma removeRange_null:
  "fst (removeRange s PNull silent t) = Tokens []
   \<and> tokens (snd (removeRange s PNull silent t)) = tokens t"
  by (simp add: removeRange_def isNaN_def to_integer_def js_splice_nothing dispatch_tokens)

text \<open>
  C4. The claim: \<^verbatim>\<open>removeRange(start, null)\<close> removes the tokens from \<open>start\<close> to the
  end and returns them. On the tokens of \<^verbatim>\<open>"abc"\<close>, \<^verbatim>\<open>removeRange(1, null)\<close> returns
  the empty array and leaves the three tokens in place; it is the call with the offset
  left out, \<^verbatim>\<open>removeRange(1)\<close>, that removes to the end.
\<close>

theorem removeRange_null_offset_at_abc:
  "fst (removeRange (PNum 1) PNull PUndefined (snd (tokenize [97, 98, 99] (Tokenizer [])))) = Tokens []
   \<and> map char (tokens (snd (removeRange (PNum 1) PNull PUndefined
          (snd (tokenize [97, 98, 99] (Tokenizer [])))))) = [[97], [98], [99]]
   \<and> map char (tokens (snd (removeRange (PNum 1) PUndefined PUndefined
          (snd (tokenize [97, 98, 99] (Tokenizer [])))))) = [[97]]"
  by code_simp

text \<open>
  C5. The claim: \<^verbatim>\<open>insertToken\<close> with an index out of bounds returns a soft-failure
  record instead of inserting. On the tokens of \<^verbatim>\<open>"abc"\<close>, inserting one token at
  index 5 succeeds and appends it.
\<close>

theorem insertToken_out_of_bounds_counterexample:
  "\<not> hasFAILObject (fst (insertToken [IsToken (Token [120])] (PNum 5) PUndefined
        (snd (tokenize [97, 98, 99] (Tokenizer [])))))
   \<and> \<not> inboundIndex (PNum 5) (snd (tokenize [97, 98, 99] (Tokenizer [])))
   \<and> map char (tokens (snd (insertToken [IsToken (Token [120])] (PNum 5) PUndefined
          (snd (tokenize [97, 98, 99] (Tokenizer [])))))) = [[97], [98], [99], [120]]"
  by code_simp

text \<open>
  C5, as amended. \<^verbatim>\<open>insertToken\<close> returns a soft-failure record exactly when an
  element of the list is not a Token, and then changes nothing. It never checks the
  index: a list of Tokens is returned and spliced in at the index as \<^verbatim>\<open>splice\<close> clamps
  it (a negative index counts from the end, an index beyond the end appends).
\<close>

theorem insertToken_checks_tokens_only:
  "(hasFAILObject (fst (insertToken items i silent t)) \<longleftrightarrow> \<not> list_all instanceof_Token items)
   \<and> (\<not> list_all instanceof_Token items \<longrightarrow> snd (insertToken items i silent t) = t)
   \<and> (list_all instanceof_Token items \<longrightarrow>
        fst (insertToken items i silent t) = Tokens (tokens_of items)
        \<and> tokens (snd (insertToken items i silent t)) =
            take (nat (relative_index (length (tokens t)) (to_integer i))) (tokens t)
            @ tokens_of items
            @ drop (nat (relative_index (length (tokens t)) (to_integer i))) (tokens t))"
  by (simp add: insertToken_def Let_def js_splice_insert dispatch_tokens)

theorem insertToken_checks_tokens_only_witness:
  "list_all instanceof_Token [IsToken (Token [120])]
   \<and> fst (insertToken [IsToken (Token [120])] (PNum 5) PUndefined
          (snd (tokenize [97, 98, 99] (Tokenizer [])))) = Tokens [Token [120]]
   \<and> \<not> list_all instanceof_Token [NotToken (JStr ''x'')]
   \<and> hasFAILObject (fst (insertToken [NotToken (JStr ''x'')] (PNum 0) PUndefined
          (snd (tokenize [97, 98, 99] (Tokenizer [])))))"
proof -
  have a: "list_all instanceof_Token [IsToken (Token [120])]" by simp
  have b: "\<not> list_all instanceof_Token [NotToken (JStr ''x'')]" by simp
  from a b
    insertToken_checks_tokens_only [of "[IsToken (Token [120])]" "PNum 5" PUndefined
      "snd (tokenize [97, 98, 99] (Tokenizer []))"]
    insertToken_checks_tokens_only [of "[NotToken (JStr ''x'')]" "PNum 0" PUndefined
      "snd (tokenize [97, 98, 99] (Tokenizer []))"]
  show ?thesis by simp
qed

section \<open>What the event bus records\<close>

lemma trace_fold_notify_one:
  "trace (fold (notify_one e args) subs t) = trace t @ observer_entries e args subs"
  by (induction subs arbitrary: t rule: observer_entries.induct [of _ e args])
     (simp_all add: apply_modifier_fields)

lemma trace_notify:
  "trace (notify e args t) = trace t @ Dispatch e args # observer_entries e args (subscribers_of e t)"
  by (simp add: notify_def Let_def subscribers_of_def trace_fold_notify_one split: option.splits)

lemma subscribers_of_cong: "events t' = events t \<Longrightarrow> subscribers_of e t' = subscribers_of e t"
  by (simp add: subscribers_of_def)

lemma observer_entries_event: "x \<in> set (observer_entries e args subs) \<Longrightarrow> entry_event x = e"
  by (induction subs rule: observer_entries.induct [of _ e args]) auto

lemma observer_entries_not_dispatch: "filter (is_dispatch_of e') (observer_entries e args subs) = []"
  by (induction subs rule: observer_entries.induct [of _ e args]) auto


lemma trace_setEndOffset:
  "setEndOffset off n t = Some (r, t2) \<Longrightarrow> trace t2 = trace t"
  by (auto simp add: setEndOffset_def Let_def update_context_fields split: option.splits)

lemma trace_check_one:
  "\<exists>es. trace (check_one p c t) = trace t @ es \<and> list_all scan_entry es"
  by (auto simp add: check_one_def Let_def trace_notify update_context_fields trace_setEndOffset
        scan_entry_def list_all_iff observer_entries_event split: option.splits)

lemma trace_fold_check_one:
  "\<exists>es. trace (fold (check_one p) cs t) = trace t @ es \<and> list_all scan_entry es"
proof (induction cs arbitrary: t)
  case Nil
  then show ?case by simp
next
  case (Cons c cs)
  obtain es1 where 1: "trace (check_one p c t) = trace t @ es1" "list_all scan_entry es1"
    using trace_check_one by blast
  obtain es2 where 2: "trace (fold (check_one p) cs (check_one p c t)) = trace (check_one p c t) @ es2"
      "list_all scan_entry es2"
    using Cons.IH by blast
  from 1 2 have "trace (fold (check_one p) (c # cs) t) = trace t @ (es1 @ es2) \<and> list_all scan_entry (es1 @ es2)"
    by simp
  then show ?case by blast
qed

lemma trace_runContextCheck:
  "\<exists>es. trace (runContextCheck p t) = trace t @ es \<and> list_all scan_entry es"
  by (simp add: runContextCheck_def trace_fold_check_one)

lemma trace_fold_runContextCheck:
  "\<exists>es. trace (fold (\<lambda>i. runContextCheck (ContextParams chars (int i))) is t) = trace t @ es
        \<and> list_all scan_entry es"
proof (induction "is" arbitrary: t)
  case Nil
  then show ?case by simp
next
  case (Cons i "is")
  let ?t1 = "runContextCheck (ContextParams chars (int i)) t"
  obtain es1 where 1: "trace ?t1 = trace t @ es1" "list_all scan_entry es1"
    using trace_runContextCheck by blast
  obtain es2 where 2: "trace (fold (\<lambda>i. runContextCheck (ContextParams chars (int i))) is ?t1) = trace ?t1 @ es2"
      "list_all scan_entry es2"
    using Cons.IH by blast
  from 1 2 have "trace (fold (\<lambda>i. runContextCheck (ContextParams chars (int i))) (i # is) t) = trace t @ (es1 @ es2)
      \<and> list_all scan_entry (es1 @ es2)"
    by simp
  then show ?case by blast
qed

lemma trace_scan: "\<exists>es. trace (scan chars t) = trace t @ es \<and> list_all scan_entry es"
  by (simp add: scan_def trace_fold_runContextCheck)

lemma scan_entries_dispatched:
  "list_all scan_entry es \<Longrightarrow> e \<noteq> ''contextStart'' \<Longrightarrow> e \<noteq> ''contextEnd'' \<Longrightarrow>
   filter (is_dispatch_of e) es = []"
proof (induction es)
  case Nil
  then show ?case by simp
next
  case (Cons x es)
  then show ?case by (cases x) (auto simp add: scan_entry_def)
qed


lemma dispatched_scan:
  "e \<noteq> ''contextStart'' \<Longrightarrow> e \<noteq> ''contextEnd'' \<Longrightarrow>
   dispatched e (trace (scan chars t)) = dispatched e (trace t)"
  using trace_scan [of chars t] by (auto simp add: dispatched_def scan_entries_dispatched)


lemma dispatched_notify:
  "dispatched e' (trace (notify e args t)) =
     dispatched e' (trace t) @ (if e' = e then [Dispatch e args] else [])"
  by (simp add: dispatched_def trace_notify observer_entries_not_dispatch)


lemma dispatched_updateContextsRanges:
  "e \<noteq> ''contextStart'' \<Longrightarrow> e \<noteq> ''contextEnd'' \<Longrightarrow>
   dispatched e (trace (updateContextsRanges t)) =
     dispatched e (trace t)
     @ (if e = ''updateContextsRanges'' then [Dispatch e [ERegisteredContexts]] else [])"
  by (simp add: updateContextsRanges_def Let_def dispatched_notify dispatched_scan
        resetContextsRanges_fields)


text \<open>The dispatches of an event by the subscribers of another event.\<close>

lemma dispatched_fold_dispatch_one:
  "e' \<noteq> ''contextStart'' \<Longrightarrow> e' \<noteq> ''contextEnd'' \<Longrightarrow>
   dispatched e' (trace (fold (dispatch_one e args) subs t)) =
     dispatched e' (trace t)
     @ (if e' = ''updateContextsRanges''
        then replicate (length (filter is_update subs)) (Dispatch e' [ERegisteredContexts])
        else [])"
proof (induction subs arbitrary: t)
  case Nil
  then show ?case by simp
next
  case (Cons s subs)
  show ?case
  proof (cases s)
    case UpdateContextsRanges
    then show ?thesis
      using Cons by (simp add: dispatched_updateContextsRanges replicate_append_same)
  next
    case (Observer h)
    then show ?thesis using Cons by (simp add: dispatched_def)
  next
    case (Modifier m c f)
    then show ?thesis using Cons by (simp add: apply_modifier_fields)
  qed
qed


lemma dispatch_unfold:
  "dispatch e args t =
     fold (dispatch_one e args) (subscribers_of e t) (t\<lparr>trace := trace t @ [Dispatch e args]\<rparr>)"
  by (simp add: dispatch_def subscribers_of_def Let_def split: option.splits)

lemma dispatched_dispatch:
  assumes "e' \<noteq> ''contextStart''" "e' \<noteq> ''contextEnd''"
  shows "dispatched e' (trace (dispatch e args t)) =
     dispatched e' (trace t)
     @ (if e' = e then [Dispatch e args] else [])
     @ (if e' = ''updateContextsRanges''
        then replicate (length (filter is_update (subscribers_of e t))) (Dispatch e' [ERegisteredContexts])
        else [])"
proof -
  have "dispatched e' (trace (t\<lparr>trace := trace t @ [Dispatch e args]\<rparr>)) =
          dispatched e' (trace t) @ (if e' = e then [Dispatch e args] else [])"
    by (simp add: dispatched_def)
  then show ?thesis
    using assms by (simp add: dispatch_unfold dispatched_fold_dispatch_one)
qed


section \<open>Events of the editing operations\<close>

lemma map_of_subscribe:
  "map_of (subscribe x s evs) e =
     (if e = x then map_option (\<lambda>subs. subs @ [s]) (map_of evs e) else map_of evs e)"
  by (auto simp add: subscribe_def update_conv' split: option.splits)

lemma updates_fold_user:
  "map_option (filter is_update)
     (map_of (fold (\<lambda>eventId evs.
                (case map_of user eventId of
                   Some (Fn h) \<Rightarrow> subscribe eventId (Observer h) evs
                 | _ \<Rightarrow> evs)) es evs) e) =
   map_option (filter is_update) (map_of evs e)"
proof (induction es arbitrary: evs)
  case Nil
  then show ?case by simp
next
  case (Cons x es)
  have "map_option (filter is_update) (map_of (subscribe x (Observer h) evs) e) =
        map_option (filter is_update) (map_of evs e)" for h
    by (simp add: map_of_subscribe option.map_comp o_def)
  then show ?case
    by (simp add: Cons.IH split: option.splits handler.splits)
qed

lemma updates_fold_subscribe:
  "distinct es \<Longrightarrow>
   map_option (filter is_update) (map_of (fold (\<lambda>x. subscribe x UpdateContextsRanges) es evs) e) =
     (if e \<in> set es
      then map_option (\<lambda>subs. filter is_update subs @ [UpdateContextsRanges]) (map_of evs e)
      else map_option (filter is_update) (map_of evs e))"
proof (induction es arbitrary: evs)
  case Nil
  then show ?case by simp
next
  case (Cons x es)
  then show ?case
    by (cases "map_of evs e") (auto simp add: map_of_subscribe)
qed

lemma map_of_no_subscribers:
  "map_of (map (\<lambda>eventId. (eventId, [])) es) e = (if e \<in> set es then Some [] else None)"
  by (induction es) auto

text \<open>
  Whatever handlers the constructor is given, \<^verbatim>\<open>updateContextsRanges\<close> is subscribed
  exactly once to each of the six editing events, and to no other event.
\<close>

lemma updates_Tokenizer:
  "map_option (filter is_update) (map_of (events (Tokenizer user)) e) =
     (if e \<in> set requiresContextUpdate then Some [UpdateContextsRanges]
      else if e \<in> set coreEvents then Some [] else None)"
proof -
  let ?evs0 = "map (\<lambda>eventId. (eventId, [])) coreEvents"
  let ?evs1 = "fold (\<lambda>eventId evs.
                (case map_of user eventId of
                   Some (Fn h) \<Rightarrow> subscribe eventId (Observer h) evs
                 | _ \<Rightarrow> evs)) coreEvents ?evs0"
  have d: "distinct requiresContextUpdate" by (simp add: requiresContextUpdate_def)
  have s: "e \<in> set requiresContextUpdate \<Longrightarrow> e \<in> set coreEvents"
    by (auto simp add: requiresContextUpdate_def coreEvents_def)
  have 0: "map_option (filter is_update) (map_of ?evs0 e) =
             (if e \<in> set coreEvents then Some [] else None)"
    by (simp add: map_of_no_subscribers)
  have 1: "map_option (filter is_update) (map_of ?evs1 e) =
             (if e \<in> set coreEvents then Some [] else None)"
    using 0 by (simp only: updates_fold_user)
  have 2: "map_option (filter is_update)
             (map_of (fold (\<lambda>x. subscribe x UpdateContextsRanges) requiresContextUpdate ?evs1) e) =
           (if e \<in> set requiresContextUpdate then Some [UpdateContextsRanges]
            else if e \<in> set coreEvents then Some [] else None)"
  proof (cases "e \<in> set requiresContextUpdate")
    case True
    with s 1 obtain subs where "map_of ?evs1 e = Some subs" "filter is_update subs = []"
      by (auto split: if_splits)
    with True show ?thesis by (simp add: updates_fold_subscribe [OF d])
  next
    case False
    with 1 show ?thesis by (simp add: updates_fold_subscribe [OF d])
  qed
  have "events (Tokenizer user) =
          fold (\<lambda>x. subscribe x UpdateContextsRanges) requiresContextUpdate ?evs1"
    by (simp add: Tokenizer_def initializeCoreEvents_def Let_def)
  with 2 show ?thesis by simp
qed

lemma updates_once_Tokenizer:
  "e \<in> set requiresContextUpdate \<Longrightarrow> updates_once e (Tokenizer user)"
  using updates_Tokenizer [of user e]
  by (auto simp add: updates_once_def subscribers_of_def split: option.splits)

lemma updates_once_events: "events t' = events t \<Longrightarrow> updates_once e t' = updates_once e t"
  by (simp add: updates_once_def subscribers_of_def)

lemma apply_RUD_silent:
  "lists_all_arguments r \<Longrightarrow> trace (snd (apply_RUD r t)) = trace t"
  "lists_all_arguments r \<Longrightarrow> events (snd (apply_RUD r t)) = events t"
  "lists_all_arguments r \<Longrightarrow> contextCheckers (snd (apply_RUD r t)) = contextCheckers t"
  by (cases r; simp add: insertToken_def removeToken_def removeRange_def replaceToken_def
        replaceRange_def Let_def split_beta split: item.splits)+

lemma apply_RUD_FAIL: "hasFAILObject (fst (apply_RUD r t)) \<Longrightarrow> snd (apply_RUD r t) = t"
  by (cases r; auto simp add: insertToken_def removeToken_def removeRange_def replaceToken_def
        replaceRange_def Let_def split_beta split: item.splits if_splits)

lemma map_RUDs_silent:
  "list_all lists_all_arguments rs \<Longrightarrow>
   trace (snd (map_RUDs rs t)) = trace t \<and> events (snd (map_RUDs rs t)) = events t
   \<and> contextCheckers (snd (map_RUDs rs t)) = contextCheckers t"
  by (induction rs arbitrary: t) (simp_all add: split_beta Let_def apply_RUD_silent)

lemma map_RUDs_all_FAIL:
  "list_all hasFAILObject (fst (map_RUDs rs t)) \<Longrightarrow> snd (map_RUDs rs t) = t"
proof (induction rs arbitrary: t)
  case Nil
  then show ?case by simp
next
  case (Cons r rs)
  from Cons.prems have f: "hasFAILObject (fst (apply_RUD r t))"
    by (simp add: split_beta Let_def)
  then have same: "snd (apply_RUD r t) = t" by (rule apply_RUD_FAIL)
  from Cons.prems same have "list_all hasFAILObject (fst (map_RUDs rs t))"
    by (simp add: split_beta Let_def)
  then have "snd (map_RUDs rs t) = t" by (rule Cons.IH)
  with same show ?case by (simp add: split_beta Let_def)
qed

text \<open>
  \<^verbatim>\<open>composeRUD\<close> over calls that list all their arguments: every operation runs
  silently; the result is a FAIL record exactly when every operation failed, and then
  nothing has changed; otherwise one \<^verbatim>\<open>composeRUD\<close> event carries the results that are
  not failures and the context ranges are recomputed once.
\<close>

lemma composeRUD_full_calls:
  assumes "list_all lists_all_arguments rs"
  shows "trace (snd (map_RUDs rs t)) = trace t"
    and "hasFAILObject (fst (composeRUD rs t)) \<longleftrightarrow> list_all hasFAILObject (fst (map_RUDs rs t))"
    and "list_all hasFAILObject (fst (map_RUDs rs t)) \<Longrightarrow>
         composeRUD rs t =
           (FAIL_report ''composeRUD: one or more operations hasn't completed successfully''
              (fst (map_RUDs rs t)), t)"
    and "\<not> list_all hasFAILObject (fst (map_RUDs rs t)) \<Longrightarrow>
         dispatched ''composeRUD'' (trace (snd (composeRUD rs t))) =
           dispatched ''composeRUD'' (trace t)
           @ [Dispatch ''composeRUD''
                [EResults (filter (\<lambda>x. \<not> hasFAILObject x) (fst (map_RUDs rs t)))]]"
    and "\<not> list_all hasFAILObject (fst (map_RUDs rs t)) \<Longrightarrow> updates_once ''composeRUD'' t \<Longrightarrow>
         length (dispatched ''updateContextsRanges'' (trace (snd (composeRUD rs t)))) =
           length (dispatched ''updateContextsRanges'' (trace t)) + 1"
    and "tokens (snd (composeRUD rs t)) = tokens (snd (map_RUDs rs t))"
proof -
  note silent = map_RUDs_silent [OF assms, of t]
  show "trace (snd (map_RUDs rs t)) = trace t" using silent by simp
  show "hasFAILObject (fst (composeRUD rs t)) \<longleftrightarrow> list_all hasFAILObject (fst (map_RUDs rs t))"
    by (simp add: composeRUD_def split_beta)
  show "composeRUD rs t =
           (FAIL_report ''composeRUD: one or more operations hasn't completed successfully''
              (fst (map_RUDs rs t)), t)"
    if "list_all hasFAILObject (fst (map_RUDs rs t))"
  proof -
    have "filter hasFAILObject (fst (map_RUDs rs t)) = fst (map_RUDs rs t)"
      using that by (simp add: list_all_iff)
    then show ?thesis
      using that by (simp add: composeRUD_def split_beta map_RUDs_all_FAIL)
  qed
  show "dispatched ''composeRUD'' (trace (snd (composeRUD rs t))) =
           dispatched ''composeRUD'' (trace t)
           @ [Dispatch ''composeRUD''
                [EResults (filter (\<lambda>x. \<not> hasFAILObject x) (fst (map_RUDs rs t)))]]"
    if "\<not> list_all hasFAILObject (fst (map_RUDs rs t))"
    using that silent by (simp add: composeRUD_def split_beta dispatched_dispatch)
  show "length (dispatched ''updateContextsRanges'' (trace (snd (composeRUD rs t)))) =
           length (dispatched ''updateContextsRanges'' (trace t)) + 1"
    if "\<not> list_all hasFAILObject (fst (map_RUDs rs t))" "updates_once ''composeRUD'' t"
    using that silent
    by (simp add: composeRUD_def split_beta dispatched_dispatch updates_once_def subscribers_of_def)
  show "tokens (snd (composeRUD rs t)) = tokens (snd (map_RUDs rs t))"
    by (simp add: composeRUD_def split_beta dispatch_tokens)
qed

text \<open>
  C3. The claim: for every list of calls, \<^verbatim>\<open>composeRUD\<close> runs each of them in silent
  mode, and one \<^verbatim>\<open>composeRUD\<close> event causes the only recomputation of the context
  ranges. \<^verbatim>\<open>composeRUD\<close> appends \<^verbatim>\<open>true\<close> to the arguments listed, so in
  \<^verbatim>\<open>composeRUD([['removeRange', 1]])\<close>, where the optional offset is left out,
  \<^verbatim>\<open>true\<close> is taken for the offset and \<^verbatim>\<open>silent\<close> is \<^verbatim>\<open>undefined\<close>: on the tokens of
  \<^verbatim>\<open>"abcd"\<close> the operation dispatches its own \<^verbatim>\<open>removeRange\<close> event, the ranges are
  recomputed twice, and one token is removed where \<^verbatim>\<open>removeRange(1)\<close> removes three.
  (For calls that list all their arguments the claim holds: lemma
  \<open>composeRUD_full_calls\<close>.)
\<close>

theorem composeRUD_removeRange_start_not_silent:
  "length (dispatched ''removeRange''
     (trace (snd (composeRUD [RUD_removeRange_start (PNum 1)] tokenizer_abcd)))) = 1
   \<and> length (dispatched ''composeRUD''
     (trace (snd (composeRUD [RUD_removeRange_start (PNum 1)] tokenizer_abcd)))) = 1
   \<and> length (dispatched ''updateContextsRanges''
     (trace (snd (composeRUD [RUD_removeRange_start (PNum 1)] tokenizer_abcd)))) = 2
   \<and> dispatched ''updateContextsRanges'' (trace tokenizer_abcd) = []
   \<and> map char (tokens (snd (composeRUD [RUD_removeRange_start (PNum 1)] tokenizer_abcd))) =
       [[97], [99], [100]]
   \<and> map char (tokens (snd (removeRange (PNum 1) PUndefined PUndefined tokenizer_abcd))) = [[97]]"
  by code_simp

section \<open>The bidi driver: the cached text\<close>

lemma and_then_Returned: "and_then (Returned, b) f = f b"
  by (simp add: and_then_def)

lemma and_then_text:
  assumes "bidi_text (snd r) = v" and "\<And>b. bidi_text b = v \<Longrightarrow> bidi_text (snd (f b)) = v"
  shows "bidi_text (snd (and_then r f)) = v"
  using assms by (cases r) (auto simp add: and_then_def split: outcome.splits)

lemma fold_text:
  assumes "\<And>r b. bidi_text (f r b) = bidi_text b"
  shows "bidi_text (fold f rs b) = bidi_text b"
  using assms by (induction rs arbitrary: b) simp_all

lemma forEach_range_text:
  assumes "\<And>r b. bidi_text (f r b) = bidi_text b"
  shows "bidi_text (snd (forEach_range n f b)) = bidi_text b"
  using fold_text [of f, OF assms] by (simp add: forEach_range_def split: sum.splits)

lemma reverse_range_text: "bidi_text (reverse_range r b) = bidi_text b"
  by (simp add: reverse_range_def Let_def)

lemma tokenizeText_text: "bidi_text (tokenizeText checks b) = bidi_text b"
  by (simp add: tokenizeText_def bidi_registerContextChecker_def Let_def)

lemma applyFeaturesToContexts_text:
  assumes "\<And>r b. bidi_text (arabicPresentationForms sh r b) = bidi_text b"
    and "\<And>r b. bidi_text (arabicRequiredLigatures sh r b) = bidi_text b"
    and "\<And>r b. bidi_text (latinLigature sh r b) = bidi_text b"
  shows "bidi_text (snd (applyFeaturesToContexts sh b)) = bidi_text b"
proof -
  have 1: "bidi_text (snd (applyArabicPresentationForms sh x)) = bidi_text x" for x
    by (simp add: applyArabicPresentationForms_def forEach_range_text assms split: outcome.splits)
  have 2: "bidi_text (snd (applyArabicRequireLigatures sh x)) = bidi_text x" for x
    by (simp add: applyArabicRequireLigatures_def forEach_range_text assms
          split: outcome.splits option.splits)
  have 3: "bidi_text (snd (applyLatinLigatures sh x)) = bidi_text x" for x
    by (simp add: applyLatinLigatures_def forEach_range_text assms
          split: outcome.splits option.splits)
  have 4: "bidi_text (snd (reverseArabicSentences x)) = bidi_text x" for x
    by (simp add: reverseArabicSentences_def forEach_range_text reverse_range_text)
  have 5: "bidi_text (snd (and_then (applyArabicPresentationForms sh x)
             (applyArabicRequireLigatures sh))) = bidi_text x" for x
    by (rule and_then_text) (simp_all add: 1 2)
  show ?thesis
    unfolding applyFeaturesToContexts_def
    by (rule and_then_text, rule and_then_text) (simp_all add: 3 4 5)
qed

lemma dispatched_runContextCheck:
  "e \<noteq> ''contextStart'' \<Longrightarrow> e \<noteq> ''contextEnd'' \<Longrightarrow>
   dispatched e (trace (runContextCheck p t)) = dispatched e (trace t)"
  using trace_runContextCheck [of p t] by (auto simp add: dispatched_def scan_entries_dispatched)

lemma start_tokenize_step:
  "dispatched ''start'' (trace (tokenize_step chars i t)) = dispatched ''start'' (trace t)"
  by (simp add: tokenize_step_def Let_def dispatched_notify dispatched_runContextCheck)

lemma start_fold_tokenize_step:
  "dispatched ''start'' (trace (fold (tokenize_step chars) is t)) = dispatched ''start'' (trace t)"
  by (induction "is" arbitrary: t) (simp_all add: start_tokenize_step)

lemma start_tokenize:
  "dispatched ''start'' (trace (snd (tokenize txt t))) =
     dispatched ''start'' (trace t) @ [Dispatch ''start'' []]"
  by (simp add: tokenize_def Let_def dispatched_notify start_fold_tokenize_step
        resetContextsRanges_fields)

lemma trace_registerContextChecker:
  "trace (snd (registerContextChecker n s e t)) = trace t"
  by (simp add: registerContextChecker_def split: option.splits)

lemma tokenize_calls_tokenizeText:
  "tokenize_calls (tokenizeText checks b) = tokenize_calls b + 1"
  by (simp add: tokenize_calls_def tokenizeText_def Let_def start_tokenize
        bidi_registerContextChecker_def trace_registerContextChecker)

lemma tokenize_calls_setText: "tokenize_calls (setText txt b) = tokenize_calls b"
  by (simp add: tokenize_calls_def setText_def)

lemma tokenize_calls_reverse_range: "tokenize_calls (reverse_range r b) = tokenize_calls b"
  by (simp add: tokenize_calls_def reverse_range_def Let_def replaceRange_def split_beta
        dispatched_dispatch)

lemma and_then_keeps:
  assumes "g (snd r) = v" and "\<And>b. g b = v \<Longrightarrow> g (snd (f b)) = v"
  shows "g (snd (and_then r f)) = v"
  using assms by (cases r) (auto simp add: and_then_def split: outcome.splits)

lemma fold_keeps:
  assumes "\<And>r b. g (f r b) = g b"
  shows "g (fold f rs b) = g b"
  using assms by (induction rs arbitrary: b) simp_all

lemma forEach_range_keeps:
  assumes "\<And>r b. g (f r b) = g b"
  shows "g (snd (forEach_range n f b)) = g b"
  using fold_keeps [of g f, OF assms] by (simp add: forEach_range_def split: sum.splits)

lemma applyFeaturesToContexts_keeps:
  assumes "\<And>r b. g (arabicPresentationForms sh r b) = g b"
    and "\<And>r b. g (arabicRequiredLigatures sh r b) = g b"
    and "\<And>r b. g (latinLigature sh r b) = g b"
    and "\<And>r b. g (reverse_range r b) = g b"
  shows "g (snd (applyFeaturesToContexts sh b)) = g b"
proof -
  have 1: "g (snd (applyArabicPresentationForms sh x)) = g x" for x
    by (simp add: applyArabicPresentationForms_def forEach_range_keeps assms split: outcome.splits)
  have 2: "g (snd (applyArabicRequireLigatures sh x)) = g x" for x
    by (simp add: applyArabicRequireLigatures_def forEach_range_keeps assms
          split: outcome.splits option.splits)
  have 3: "g (snd (applyLatinLigatures sh x)) = g x" for x
    by (simp add: applyLatinLigatures_def forEach_range_keeps assms
          split: outcome.splits option.splits)
  have 4: "g (snd (reverseArabicSentences x)) = g x" for x
    by (simp add: reverseArabicSentences_def forEach_range_keeps assms)
  have 5: "g (snd (and_then (applyArabicPresentationForms sh x)
             (applyArabicRequireLigatures sh))) = g x" for x
    by (rule and_then_keeps) (simp_all add: 1 2)
  show ?thesis
    unfolding applyFeaturesToContexts_def
    by (rule and_then_keeps, rule and_then_keeps) (simp_all add: 3 4 5)
qed

text \<open>
  C6. The claim: for every text, the second of two calls \<^verbatim>\<open>processText(t)\<close> in
  succession finds the text stored and does not tokenize again. The guard is
  \<^verbatim>\<open>!this.text || this.text !== text\<close>, and the empty string is falsy: on a new
  \<^verbatim>\<open>Bidi\<close>, two calls \<^verbatim>\<open>processText('')\<close> run \<^verbatim>\<open>tokenize\<close> twice (it dispatches
  \<^verbatim>\<open>start\<close> once per call).
\<close>

theorem processText_empty_twice_counterexample:
  "length (dispatched ''start'' (trace (tokenizer
     (snd (processText example_checks no_shaping []
        (snd (processText example_checks no_shaping [] (Bidi ''ltr'')))))))) = 2"
  by code_simp

text \<open>
  C6, as amended. The shapers, which are parameters here, are taken neither to assign the
  stored text nor to invoke \<^verbatim>\<open>tokenize\<close>. A call \<^verbatim>\<open>processText(t)\<close> made when the stored
  text is not \<open>t\<close>, or with the empty string, invokes \<^verbatim>\<open>tokenize\<close> exactly once; a call
  with a text that is not empty and is the stored one returns at once and leaves the driver
  as it is. So for every text that is not empty, the second of two calls in succession
  changes nothing, and the two calls invoke \<^verbatim>\<open>tokenize\<close> once when the text was not stored
  before; for the empty string every call tokenizes again and two calls in succession
  invoke \<^verbatim>\<open>tokenize\<close> twice. (\<^verbatim>\<open>processText\<close> returns no value; the cached result is the
  state of the tokenizer.)
\<close>

theorem processText_twice:
  assumes "\<And>r b. bidi_text (arabicPresentationForms sh r b) = bidi_text b
                  \<and> tokenize_calls (arabicPresentationForms sh r b) = tokenize_calls b"
    and "\<And>r b. bidi_text (arabicRequiredLigatures sh r b) = bidi_text b
                  \<and> tokenize_calls (arabicRequiredLigatures sh r b) = tokenize_calls b"
    and "\<And>r b. bidi_text (latinLigature sh r b) = bidi_text b
                  \<and> tokenize_calls (latinLigature sh r b) = tokenize_calls b"
  shows "(bidi_text b \<noteq> Some txt \<or> txt = [] \<longrightarrow>
            tokenize_calls (snd (processText checks sh txt b)) = tokenize_calls b + 1)
         \<and> (bidi_text b = Some txt \<and> txt \<noteq> [] \<longrightarrow> processText checks sh txt b = (Returned, b))
         \<and> (txt \<noteq> [] \<longrightarrow>
              processText checks sh txt (snd (processText checks sh txt b)) =
                (Returned, snd (processText checks sh txt b)))
         \<and> (txt \<noteq> [] \<and> bidi_text b \<noteq> Some txt \<longrightarrow>
              tokenize_calls (snd (processText checks sh txt (snd (processText checks sh txt b)))) =
                tokenize_calls b + 1)
         \<and> (txt = [] \<longrightarrow>
              tokenize_calls (snd (processText checks sh txt (snd (processText checks sh txt b)))) =
                tokenize_calls b + 2)"
proof -
  let ?P = "processText checks sh txt"
  have calls: "tokenize_calls (snd (applyFeaturesToContexts sh x)) = tokenize_calls x" for x
    by (rule applyFeaturesToContexts_keeps) (simp_all add: assms tokenize_calls_reverse_range)
  have "text": "bidi_text (snd (applyFeaturesToContexts sh x)) = bidi_text x" for x
    by (rule applyFeaturesToContexts_text) (simp_all add: assms)
  have first: "tokenize_calls (snd (?P x)) = tokenize_calls x + 1"
    if "bidi_text x \<noteq> Some txt \<or> txt = []" for x
    using that
    by (auto simp add: processText_def calls tokenize_calls_tokenizeText tokenize_calls_setText
          split: option.splits)
  have cached: "?P x = (Returned, x)" if "bidi_text x = Some txt" "txt \<noteq> []" for x
    using that by (simp add: processText_def)
  have stored: "bidi_text (snd (?P b)) = Some txt"
    by (simp add: processText_def "text" tokenizeText_text setText_def split: option.splits)
  have second: "?P (snd (?P b)) = (Returned, snd (?P b))" if "txt \<noteq> []"
    using stored that by (rule cached)
  have once: "tokenize_calls (snd (?P (snd (?P b)))) = tokenize_calls b + 1"
    if "txt \<noteq> []" "bidi_text b \<noteq> Some txt"
    using second [OF that(1)] first [of b] that(2) by simp
  have twice: "tokenize_calls (snd (?P (snd (?P b)))) = tokenize_calls b + 2" if "txt = []"
    using first [of b] first [of "snd (?P b)"] that by simp
  from first [of b] cached [of b] second once twice show ?thesis by blast
qed

theorem processText_twice_witness:
  "tokenize_calls (Bidi ''ltr'') = 0
   \<and> bidi_text (Bidi ''ltr'') \<noteq> Some [97, 98]
   \<and> tokenize_calls (snd (processText example_checks no_shaping [97, 98] (Bidi ''ltr''))) = 1
   \<and> processText example_checks no_shaping [97, 98]
        (snd (processText example_checks no_shaping [97, 98] (Bidi ''ltr''))) =
       (Returned, snd (processText example_checks no_shaping [97, 98] (Bidi ''ltr'')))
   \<and> tokenize_calls (snd (processText example_checks no_shaping [97, 98]
        (snd (processText example_checks no_shaping [97, 98] (Bidi ''ltr''))))) = 1
   \<and> tokenize_calls (snd (processText example_checks no_shaping []
        (snd (processText example_checks no_shaping [97, 98] (Bidi ''ltr''))))) = 2"
proof -
  let ?b = "Bidi ''ltr''"
  let ?b1 = "snd (processText example_checks no_shaping [97, 98] ?b)"
  have a: "[97, 98] \<noteq> ([] :: jsstring)" by simp
  have z: "tokenize_calls ?b = 0" by code_simp
  have n: "bidi_text ?b \<noteq> Some [97, 98]" by (simp add: Bidi_def)
  have s: "bidi_text (arabicPresentationForms no_shaping r x) = bidi_text x
             \<and> tokenize_calls (arabicPresentationForms no_shaping r x) = tokenize_calls x"
    "bidi_text (arabicRequiredLigatures no_shaping r x) = bidi_text x
             \<and> tokenize_calls (arabicRequiredLigatures no_shaping r x) = tokenize_calls x"
    "bidi_text (latinLigature no_shaping r x) = bidi_text x
             \<and> tokenize_calls (latinLigature no_shaping r x) = tokenize_calls x" for r x
    by (simp_all add: no_shaping_def)
  note t1 = processText_twice [of no_shaping ?b "[97, 98]" example_checks, OF s]
  note t2 = processText_twice [of no_shaping ?b1 "[]" example_checks, OF s]
  have 1: "tokenize_calls ?b1 = 1"
    using t1 [THEN conjunct1] n z by simp
  have 2: "processText example_checks no_shaping [97, 98] ?b1 = (Returned, ?b1)"
    using t1 [THEN conjunct2, THEN conjunct2, THEN conjunct1] a by simp
  have 3: "tokenize_calls (snd (processText example_checks no_shaping [97, 98] ?b1)) = 1"
    using t1 [THEN conjunct2, THEN conjunct2, THEN conjunct2, THEN conjunct1] a n z by simp
  have 4: "tokenize_calls (snd (processText example_checks no_shaping [] ?b1)) = 2"
    using t2 [THEN conjunct1] 1 by simp
  from z n 1 2 3 4 show ?thesis by (simp only: simp_thms)
qed

section \<open>The bidi driver: reversal of Arabic sentences\<close>

lemma tokens_of_map_IsToken [simp]: "tokens_of (map IsToken ts) = ts"
  by (induction ts) simp_all

lemma list_all_map_IsToken [simp]: "list_all instanceof_Token (map IsToken ts)"
  by (induction ts) simp_all

lemma length_reversed_in_place: "length (reversed_in_place r ts) = length ts"
  by (auto simp add: reversed_in_place_def Let_def)

lemma js_slice_in_bounds:
  assumes "0 \<le> s" "0 \<le> e" "s + e \<le> int (length ts)"
  shows "js_slice ts s (Some (s + e)) = take (nat e) (drop (nat s) ts)"
  using assms by (simp add: js_slice_def relative_index_def Let_def)

lemma js_splice_in_bounds:
  assumes "0 \<le> s" "0 \<le> e" "s + e \<le> int (length ts)"
  shows "snd (js_splice ts s e xs) = take (nat s) ts @ xs @ drop (nat s + nat e) ts"
  using assms by (simp add: js_splice_def relative_index_def Let_def min_def nat_add_distrib)

lemma reverse_range_tokens:
  assumes "in_bounds (length (tokens (tokenizer b))) r"
  shows "tokens (tokenizer (reverse_range r b)) = reversed_in_place r (tokens (tokenizer b))"
proof -
  from assms obtain e where e: "endOffset r = Some e" "0 \<le> startIndex r"
      "startIndex r < int (length (tokens (tokenizer b)))" "0 \<le> e"
      "startIndex r + e \<le> int (length (tokens (tokenizer b)))"
    by (auto simp add: in_bounds_def split: option.splits)
  have sl: "getRangeTokens r (tokenizer b) = take (nat e) (drop (nat (startIndex r)) (tokens (tokenizer b)))"
    using e by (simp add: getRangeTokens_def Let_def js_slice_in_bounds)
  have inb: "inboundIndex (PNum (startIndex r)) (tokenizer b)"
    using e by (simp add: inboundIndex_def)
  show ?thesis
    using e inb
    by (simp add: reverse_range_def Let_def sl replaceRange_def isNaN_def to_integer_def split_beta
          dispatch_tokens js_splice_in_bounds reversed_in_place_def)
qed

lemma fold_reverse_range_tokens:
  "list_all (in_bounds (length (tokens (tokenizer b)))) rs \<Longrightarrow>
   tokens (tokenizer (fold reverse_range rs b)) = fold reversed_in_place rs (tokens (tokenizer b))"
proof (induction rs arbitrary: b)
  case Nil
  then show ?case by simp
next
  case (Cons r rs)
  from Cons.prems have r: "in_bounds (length (tokens (tokenizer b))) r" by simp
  have t: "tokens (tokenizer (reverse_range r b)) = reversed_in_place r (tokens (tokenizer b))"
    using r by (rule reverse_range_tokens)
  then have "length (tokens (tokenizer (reverse_range r b))) = length (tokens (tokenizer b))"
    by (simp add: length_reversed_in_place)
  with Cons.prems have "list_all (in_bounds (length (tokens (tokenizer (reverse_range r b))))) rs"
    by simp
  then have "tokens (tokenizer (fold reverse_range rs (reverse_range r b))) =
             fold reversed_in_place rs (tokens (tokenizer (reverse_range r b)))"
    by (rule Cons.IH)
  with t show ?case by simp
qed

text \<open>Each replacement goes through \<^verbatim>\<open>replaceRange\<close>, which dispatches \<^verbatim>\<open>replaceToken\<close>.\<close>

lemma reverse_range_dispatched:
  assumes "in_bounds (length (tokens (tokenizer b))) r"
  shows "length (dispatched ''replaceToken'' (trace (tokenizer (reverse_range r b)))) =
         length (dispatched ''replaceToken'' (trace (tokenizer b))) + 1"
proof -
  from assms obtain e where e: "endOffset r = Some e" "0 \<le> startIndex r"
      "startIndex r < int (length (tokens (tokenizer b)))"
    by (auto simp add: in_bounds_def split: option.splits)
  have inb: "inboundIndex (PNum (startIndex r)) (tokenizer b)"
    using e by (simp add: inboundIndex_def)
  show ?thesis
    using e inb
    by (simp add: reverse_range_def Let_def replaceRange_def isNaN_def split_beta
          dispatched_dispatch)
qed

lemma fold_reverse_range_dispatched:
  "list_all (in_bounds (length (tokens (tokenizer b)))) rs \<Longrightarrow>
   length (dispatched ''replaceToken'' (trace (tokenizer (fold reverse_range rs b)))) =
   length (dispatched ''replaceToken'' (trace (tokenizer b))) + length rs"
proof (induction rs arbitrary: b)
  case Nil
  then show ?case by simp
next
  case (Cons r rs)
  from Cons.prems have r: "in_bounds (length (tokens (tokenizer b))) r" by simp
  have "length (tokens (tokenizer (reverse_range r b))) = length (tokens (tokenizer b))"
    using reverse_range_tokens [OF r] by (simp add: length_reversed_in_place)
  with Cons.prems have "list_all (in_bounds (length (tokens (tokenizer (reverse_range r b))))) rs"
    by simp
  from Cons.IH [OF this] reverse_range_dispatched [OF r] show ?case by simp
qed

lemma applyFeaturesToContexts_no_features:
  assumes "map_of (featuresTags b) ''arab'' = None" and "map_of (featuresTags b) ''latn'' = None"
  shows "applyFeaturesToContexts sh b =
           (if checkContextReady ''arabicSentence'' b then reverseArabicSentences b
            else (Returned, b))"
  using assms
  by (simp add: applyFeaturesToContexts_def applyArabicPresentationForms_def hasFeatures_def
        applyArabicRequireLigatures_def applyLatinLigatures_def and_then_Returned)

text \<open>
  C2. The claim: the reversal of Arabic sentences is applied only when the
  \<^verbatim>\<open>arabicSentence\<close> context is registered and a feature tag has been requested for the
  Arabic script. On a new \<^verbatim>\<open>Bidi\<close>, for which no feature has been requested, the text
  of two Arabic letters comes back reversed.
\<close>

theorem reversal_without_features_counterexample:
  "featuresTags (Bidi ''ltr'') = []
   \<and> fst (getBidiText example_checks no_shaping [0x645, 0x631] (Bidi ''ltr'')) = Inr [0x631, 0x645]"
  by code_simp

lemma shaping_steps_missing_glyphIndex:
  assumes "''glyphIndex'' \<notin> set (registeredModifiers (tokenizer b))"
  shows "shaping_steps sh b =
           (if shaping_requested b then (Thrown glyphIndex_required, b) else (Returned, b))"
  using assms
  by (auto simp add: shaping_steps_def shaping_requested_def applyArabicPresentationForms_def
        applyArabicRequireLigatures_def applyLatinLigatures_def hasFeatures_def
        checkGlyphIndexStatus_def glyphIndex_required_def and_then_def
        split: option.splits)

lemma shaping_steps_no_features:
  assumes "map_of (featuresTags b) ''arab'' = None" and "map_of (featuresTags b) ''latn'' = None"
  shows "shaping_steps sh b = (Returned, b)"
  using assms
  by (simp add: shaping_steps_def applyArabicPresentationForms_def hasFeatures_def
        applyArabicRequireLigatures_def applyLatinLigatures_def and_then_Returned)

lemma applyFeaturesToContexts_steps:
  "applyFeaturesToContexts sh b =
     and_then (shaping_steps sh b)
       (\<lambda>b2. if checkContextReady ''arabicSentence'' b2 then reverseArabicSentences b2
              else (Returned, b2))"
  by (simp add: applyFeaturesToContexts_def shaping_steps_def)

text \<open>
  C2, as amended. The reversal of Arabic sentences is not gated by a feature tag. It is
  applied exactly when the steps before it have returned without throwing and the
  \<^verbatim>\<open>arabicSentence\<close> context is registered; when that context is not registered nothing is
  reversed. With no feature tag requested for the scripts \<^verbatim>\<open>arab\<close> and \<^verbatim>\<open>latn\<close> the steps
  before it do nothing, so the reversal is applied whenever the context is registered. When
  the \<^verbatim>\<open>glyphIndex\<close> modifier is not registered, the steps before it throw, and the reversal
  is not reached, exactly when \<^verbatim>\<open>arabicWord\<close> is registered and a tag is requested for
  \<^verbatim>\<open>arab\<close>, or \<^verbatim>\<open>latinWord\<close> is registered and \<^verbatim>\<open>liga\<close> is requested for \<^verbatim>\<open>latn\<close>. When
  the reversal applies, every \<^verbatim>\<open>arabicSentence\<close> range, taken in order from the ranges as
  they are when the reversal starts, is replaced through \<^verbatim>\<open>replaceRange\<close> (one
  \<^verbatim>\<open>replaceToken\<close> event each) by its own tokens in reverse order, for ranges that lie in
  the token vector.
\<close>

theorem reversal_gated_by_context_only:
  "(fst (shaping_steps sh b) \<noteq> Returned \<longrightarrow> applyFeaturesToContexts sh b = shaping_steps sh b)
   \<and> (fst (shaping_steps sh b) = Returned \<longrightarrow>
        (case getContext ''arabicSentence'' (tokenizer (snd (shaping_steps sh b))) of
           None \<Rightarrow> applyFeaturesToContexts sh b = (Returned, snd (shaping_steps sh b))
         | Some c \<Rightarrow>
             applyFeaturesToContexts sh b =
               (Returned, fold reverse_range (ranges c) (snd (shaping_steps sh b)))
             \<and> (list_all (in_bounds (length (tokens (tokenizer (snd (shaping_steps sh b))))))
                  (ranges c) \<longrightarrow>
                  tokens (tokenizer (snd (applyFeaturesToContexts sh b))) =
                    fold reversed_in_place (ranges c) (tokens (tokenizer (snd (shaping_steps sh b))))
                  \<and> length (dispatched ''replaceToken''
                       (trace (tokenizer (snd (applyFeaturesToContexts sh b))))) =
                     length (dispatched ''replaceToken''
                       (trace (tokenizer (snd (shaping_steps sh b))))) + length (ranges c))))
   \<and> (map_of (featuresTags b) ''arab'' = None \<and> map_of (featuresTags b) ''latn'' = None \<longrightarrow>
        shaping_steps sh b = (Returned, b))
   \<and> (''glyphIndex'' \<notin> set (registeredModifiers (tokenizer b)) \<longrightarrow>
        shaping_steps sh b =
          (if shaping_requested b then (Thrown glyphIndex_required, b) else (Returned, b)))"
proof -
  obtain out b2 where s: "shaping_steps sh b = (out, b2)" by (cases "shaping_steps sh b")
  have thrown: "applyFeaturesToContexts sh b = shaping_steps sh b" if "out \<noteq> Returned"
    using that s by (cases out) (simp_all add: applyFeaturesToContexts_steps and_then_def)
  have returned: "case getContext ''arabicSentence'' (tokenizer b2) of
           None \<Rightarrow> applyFeaturesToContexts sh b = (Returned, b2)
         | Some c \<Rightarrow>
             applyFeaturesToContexts sh b = (Returned, fold reverse_range (ranges c) b2)
             \<and> (list_all (in_bounds (length (tokens (tokenizer b2)))) (ranges c) \<longrightarrow>
                  tokens (tokenizer (snd (applyFeaturesToContexts sh b))) =
                    fold reversed_in_place (ranges c) (tokens (tokenizer b2))
                  \<and> length (dispatched ''replaceToken''
                       (trace (tokenizer (snd (applyFeaturesToContexts sh b))))) =
                     length (dispatched ''replaceToken'' (trace (tokenizer b2))) + length (ranges c))"
    if "out = Returned"
  proof (cases "getContext ''arabicSentence'' (tokenizer b2)")
    case None
    then show ?thesis
      using that s
      by (simp add: applyFeaturesToContexts_steps and_then_Returned checkContextReady_def)
  next
    case (Some c)
    then have "applyFeaturesToContexts sh b = (Returned, fold reverse_range (ranges c) b2)"
      using that s
      by (simp add: applyFeaturesToContexts_steps and_then_Returned checkContextReady_def
            reverseArabicSentences_def forEach_range_def getContextRanges_def)
    then show ?thesis
      using Some by (simp add: fold_reverse_range_tokens fold_reverse_range_dispatched)
  qed
  from thrown returned shaping_steps_no_features [of b sh]
    shaping_steps_missing_glyphIndex [of b sh]
  show ?thesis unfolding s fst_conv snd_conv by blast
qed

theorem reversal_gated_by_context_only_witness:
  "map_of (featuresTags (example_driver False False)) ''arab'' = None
   \<and> map char (tokens (tokenizer (example_driver False False))) = [[0x645], [0x631], [0x21]]
   \<and> map char (tokens (tokenizer (snd (applyFeaturesToContexts no_shaping
        (example_driver False False))))) = [[0x631], [0x645], [0x21]]
   \<and> length (dispatched ''replaceToken'' (trace (tokenizer (snd (applyFeaturesToContexts no_shaping
        (example_driver False False)))))) = 1
   \<and> hasFeatures ''arab'' (example_driver True True)
   \<and> map char (tokens (tokenizer (snd (applyFeaturesToContexts no_shaping
        (example_driver True True))))) = [[0x631], [0x645], [0x21]]
   \<and> hasFeatures ''arab'' (example_driver True False)
   \<and> checkContextReady ''arabicSentence'' (example_driver True False)
   \<and> applyFeaturesToContexts no_shaping (example_driver True False) =
       (Thrown glyphIndex_required, example_driver True False)
   \<and> map char (tokens (tokenizer (example_driver True False))) = [[0x645], [0x631], [0x21]]"
proof -
  let ?r = "\<lparr>contextName = ''arabicSentence'', startIndex = 0, endOffset = Some 2,
              rangeId = Some (''arabicSentence'', 0)\<rparr>"
  have rev: "tokens (tokenizer (snd (applyFeaturesToContexts no_shaping x))) =
               fold reversed_in_place [?r] (tokens (tokenizer (snd (shaping_steps no_shaping x))))
             \<and> length (dispatched ''replaceToken''
                  (trace (tokenizer (snd (applyFeaturesToContexts no_shaping x))))) =
               length (dispatched ''replaceToken''
                  (trace (tokenizer (snd (shaping_steps no_shaping x))))) + length [?r]"
    if ret: "fst (shaping_steps no_shaping x) = Returned"
      and c: "map_option ranges
               (getContext ''arabicSentence'' (tokenizer (snd (shaping_steps no_shaping x)))) = Some [?r]"
      and i: "list_all (in_bounds (length (tokens (tokenizer (snd (shaping_steps no_shaping x))))))
               [?r]"
    for x
  proof -
    let ?b2 = "snd (shaping_steps no_shaping x)"
    let ?b' = "snd (applyFeaturesToContexts no_shaping x)"
    from c obtain ck where ck: "getContext ''arabicSentence'' (tokenizer ?b2) = Some ck"
        "ranges ck = [?r]"
      by auto
    have th: "applyFeaturesToContexts no_shaping x = (Returned, fold reverse_range (ranges ck) ?b2)
             \<and> (list_all (in_bounds (length (tokens (tokenizer ?b2)))) (ranges ck) \<longrightarrow>
                  tokens (tokenizer ?b') = fold reversed_in_place (ranges ck) (tokens (tokenizer ?b2))
                  \<and> length (dispatched ''replaceToken'' (trace (tokenizer ?b'))) =
                     length (dispatched ''replaceToken'' (trace (tokenizer ?b2))) + length (ranges ck))"
      using reversal_gated_by_context_only [of no_shaping x, THEN conjunct2, THEN conjunct1,
          THEN mp, OF ret]
      unfolding ck(1) option.case by assumption
    have "list_all (in_bounds (length (tokens (tokenizer ?b2)))) (ranges ck)"
      using i by (simp only: ck(2))
    with th have "tokens (tokenizer ?b') = fold reversed_in_place (ranges ck) (tokens (tokenizer ?b2))
      \<and> length (dispatched ''replaceToken'' (trace (tokenizer ?b'))) =
           length (dispatched ''replaceToken'' (trace (tokenizer ?b2))) + length (ranges ck)"
      by blast
    then show ?thesis by (simp only: ck(2))
  qed
  let ?n = "example_driver False False"
  let ?g = "example_driver True True"
  let ?m = "example_driver True False"
  have n0: "map_of (featuresTags ?n) ''arab'' = None" by code_simp
  have n1: "map char (tokens (tokenizer ?n)) = [[0x645], [0x631], [0x21]]" by code_simp
  have n2: "fst (shaping_steps no_shaping ?n) = Returned" by code_simp
  have n3: "map_option ranges
      (getContext ''arabicSentence'' (tokenizer (snd (shaping_steps no_shaping ?n)))) = Some [?r]"
    by code_simp
  have n4: "list_all (in_bounds (length (tokens (tokenizer (snd (shaping_steps no_shaping ?n))))))
      [?r]"
    by code_simp
  have n5: "map char (fold reversed_in_place [?r]
      (tokens (tokenizer (snd (shaping_steps no_shaping ?n))))) = [[0x631], [0x645], [0x21]]"
    by code_simp
  have n6: "length (dispatched ''replaceToken''
      (trace (tokenizer (snd (shaping_steps no_shaping ?n))))) + length [?r] = 1"
    by code_simp
  have g0: "hasFeatures ''arab'' ?g" by code_simp
  have g2: "fst (shaping_steps no_shaping ?g) = Returned" by code_simp
  have g3: "map_option ranges
      (getContext ''arabicSentence'' (tokenizer (snd (shaping_steps no_shaping ?g)))) = Some [?r]"
    by code_simp
  have g4: "list_all (in_bounds (length (tokens (tokenizer (snd (shaping_steps no_shaping ?g))))))
      [?r]"
    by code_simp
  have g5: "map char (fold reversed_in_place [?r]
      (tokens (tokenizer (snd (shaping_steps no_shaping ?g))))) = [[0x631], [0x645], [0x21]]"
    by code_simp
  have m0: "hasFeatures ''arab'' ?m" by code_simp
  have m1: "checkContextReady ''arabicSentence'' ?m" by code_simp
  have m2: "''glyphIndex'' \<notin> set (registeredModifiers (tokenizer ?m))" by code_simp
  have m3: "shaping_requested ?m" by code_simp
  have m4: "map char (tokens (tokenizer ?m)) = [[0x645], [0x631], [0x21]]" by code_simp
  have N: "map char (tokens (tokenizer (snd (applyFeaturesToContexts no_shaping ?n)))) =
             [[0x631], [0x645], [0x21]]"
    using rev [OF n2 n3 n4] n5 by (simp only:)
  have N': "length (dispatched ''replaceToken''
      (trace (tokenizer (snd (applyFeaturesToContexts no_shaping ?n))))) = 1"
    using rev [OF n2 n3 n4] n6 by (simp only:)
  have G: "map char (tokens (tokenizer (snd (applyFeaturesToContexts no_shaping ?g)))) =
             [[0x631], [0x645], [0x21]]"
    using rev [OF g2 g3 g4] g5 by (simp only:)
  have "shaping_steps no_shaping ?m = (Thrown glyphIndex_required, ?m)"
    using reversal_gated_by_context_only [of no_shaping ?m, THEN conjunct2, THEN conjunct2,
        THEN conjunct2, THEN mp, OF m2] m3
    by (simp only: if_True)
  moreover from this have "fst (shaping_steps no_shaping ?m) \<noteq> Returned" by simp
  then have "applyFeaturesToContexts no_shaping ?m = shaping_steps no_shaping ?m"
    by (rule reversal_gated_by_context_only [of no_shaping ?m, THEN conjunct1, THEN mp])
  ultimately have M: "applyFeaturesToContexts no_shaping ?m = (Thrown glyphIndex_required, ?m)"
    by (simp only:)
  from n0 n1 N N' g0 G m0 m1 M m4 show ?thesis by (simp only: simp_thms)
qed

section \<open>The forward scan\<close>

lemma tokenize_step_chars:
  "map char (tokens (tokenize_step chars i t)) = map char (tokens t) @ [chars ! i]"
  by (simp add: tokenize_step_def Let_def notify_fields runContextCheck_fields Token_def)

lemma fold_tokenize_step_chars:
  "k \<le> length chars \<Longrightarrow>
   map char (tokens (fold (tokenize_step chars) [0..<k] t)) = map char (tokens t) @ take k chars"
proof (induction k)
  case 0
  then show ?case by simp
next
  case (Suc k)
  then show ?case by (simp add: tokenize_step_chars take_Suc_conv_app_nth)
qed

lemma tokenize_chars: "map char (fst (tokenize txt t)) = Array_from txt"
  by (simp add: tokenize_def Let_def notify_fields fold_tokenize_step_chars
        resetContextsRanges_fields)

lemma tokenize_tokens: "tokens (snd (tokenize txt t)) = fst (tokenize txt t)"
  by (simp add: tokenize_def Let_def)

lemma find_map_update:
  assumes "\<And>c. checker_contextName (f c) = checker_contextName c"
  shows "find (\<lambda>c. checker_contextName c = n)
           (map (\<lambda>c. if checker_contextName c = n then f c else c) cs) =
         map_option f (find (\<lambda>c. checker_contextName c = n) cs)"
  using assms by (induction cs) simp_all

lemma getContext_update_context:
  assumes "\<And>c. checker_contextName (f c) = checker_contextName c"
  shows "getContext n (update_context n f t) = map_option f (getContext n t)"
  using assms by (simp add: getContext_def update_context_def find_map_update)

lemma getContext_update_open:
  "Option.bind (getContext n (update_context n (\<lambda>x. x\<lparr>openRange := v\<rparr>) t)) openRange =
     (case getContext n t of None \<Rightarrow> None | Some c \<Rightarrow> v)"
  by (simp add: getContext_def update_context_def find_map_update split: option.splits)

lemma getContext_notify: "getContext n (notify e args t) = getContext n t"
  by (simp add: getContext_def notify_fields)

lemma setEndOffset_Some:
  assumes "setEndOffset off n t = Some (rng, t2)"
  shows "\<exists>r. Option.bind (getContext n t) openRange = Some r
             \<and> startIndex rng = startIndex r \<and> endOffset rng = Some off
             \<and> contextCheckers t2 =
                 map (\<lambda>x. if checker_contextName x = n
                           then x\<lparr>ranges := ranges x @ [rng], openRange := None\<rparr> else x)
                   (contextCheckers t)"
  using assms
  by (auto simp add: setEndOffset_def Let_def update_context_def ContextRange_def
        split: option.splits Option.bind_splits)

lemma ranges_within_open:
  "ranges_within N (update_context n (\<lambda>x. x\<lparr>openRange := v\<rparr>) t) = ranges_within N t"
proof -
  have "list_all (\<lambda>c. list_all (closed_within N) (ranges c))
          (map (\<lambda>c. if checker_contextName c = n then c\<lparr>openRange := v\<rparr> else c) cs) =
        list_all (\<lambda>c. list_all (closed_within N) (ranges c)) cs" for cs
    by (induction cs) simp_all
  then show ?thesis by (simp add: ranges_within_def update_context_def)
qed

lemma ranges_within_notify: "ranges_within N (notify e args t) = ranges_within N t"
  by (simp add: ranges_within_def notify_fields)

lemma ranges_within_close:
  assumes "ranges_within N t" and "closed_within N rng"
    and "contextCheckers t2 =
                 map (\<lambda>x. if checker_contextName x = n
                           then x\<lparr>ranges := ranges x @ [rng], openRange := None\<rparr> else x)
                   (contextCheckers t)"
  shows "ranges_within N t2"
  using assms by (auto simp add: ranges_within_def list_all_iff)

lemma check_one_within:
  assumes "ranges_within N t" and "0 \<le> index p" and "index p < int N"
  shows "ranges_within N (check_one p c t)"
proof -
  let ?n = "checker_contextName c"
  let ?open0 = "Option.bind (getContext ?n t) openRange"
  let ?starts = "?open0 = None \<and> checkStart c p"
  let ?open1 = "if ?starts then Some (ContextRange (index p) None ?n) else ?open0"
  let ?t1 = "if ?starts
             then notify ''contextStart'' [EName ?n, EPrim (PNum (index p))]
                    (update_context ?n (\<lambda>x. x\<lparr>openRange := ?open1\<rparr>) t)
             else t"
  have w1: "ranges_within N ?t1"
    using assms(1) by (simp add: ranges_within_notify ranges_within_open)
  have rb: "getContext ?n ?t1 = None \<or> Option.bind (getContext ?n ?t1) openRange = ?open1"
    by (cases "getContext ?n t")
       (simp_all add: getContext_notify getContext_update_open getContext_update_context)
  have "ranges_within N (notify ''contextEnd'' [EName ?n, ERange rng] t2)"
    if o: "?open1 = Some r" and s: "setEndOffset (index p - startIndex r + 1) ?n ?t1 = Some (rng, t2)"
    for r rng t2
  proof -
    from setEndOffset_Some [OF s] obtain r' where
      r': "Option.bind (getContext ?n ?t1) openRange = Some r'"
        "startIndex rng = startIndex r'" "endOffset rng = Some (index p - startIndex r + 1)"
        "contextCheckers t2 =
           map (\<lambda>x. if checker_contextName x = ?n
                     then x\<lparr>ranges := ranges x @ [rng], openRange := None\<rparr> else x)
             (contextCheckers ?t1)"
      by blast
    from r'(1) rb have "Option.bind (getContext ?n ?t1) openRange = ?open1"
      by (auto simp del: bind_eq_Some_conv)
    with r'(1) o have "r' = r" by simp
    with r'(2,3) assms(2,3) have cw: "closed_within N rng"
      by (simp add: closed_within_def)
    have "ranges_within N t2" by (rule ranges_within_close [OF w1 cw r'(4)])
    then show ?thesis by (simp add: ranges_within_notify)
  qed
  with w1 show ?thesis
    unfolding check_one_def Let_def
    by (auto split: option.splits)
qed

lemma fold_check_one_within:
  assumes "0 \<le> index p" and "index p < int N"
  shows "ranges_within N t \<Longrightarrow> ranges_within N (fold (check_one p) cs t)"
  by (induction cs arbitrary: t) (simp_all add: check_one_within assms)

lemma runContextCheck_within:
  "ranges_within N t \<Longrightarrow> 0 \<le> index p \<Longrightarrow> index p < int N \<Longrightarrow>
   ranges_within N (runContextCheck p t)"
  by (simp add: runContextCheck_def fold_check_one_within)

lemma index_ContextParams [simp]: "index (ContextParams cs i) = i"
  by (simp add: ContextParams_def)

lemma ranges_within_tokens: "ranges_within N (t\<lparr>tokens := ts\<rparr>) = ranges_within N t"
  by (simp add: ranges_within_def)

lemma tokenize_step_within:
  "ranges_within N t \<Longrightarrow> i < N \<Longrightarrow> ranges_within N (tokenize_step chars i t)"
  by (simp add: tokenize_step_def Let_def ranges_within_notify ranges_within_tokens
        runContextCheck_within)

lemma fold_tokenize_step_within:
  "ranges_within N t \<Longrightarrow> \<forall>i\<in>set is. i < N \<Longrightarrow>
   ranges_within N (fold (tokenize_step chars) is t)"
  by (induction "is" arbitrary: t) (simp_all add: tokenize_step_within)

lemma ranges_within_reset: "ranges_within N (resetContextsRanges t)"
  by (simp add: ranges_within_def resetContextsRanges_def list_all_iff)

text \<open>After \<^verbatim>\<open>tokenize\<close>, every range of every context ends inside the text.\<close>

lemma tokenize_within: "ranges_within (length (Array_from txt)) (snd (tokenize txt t))"
  by (simp add: tokenize_def Let_def ranges_within_notify fold_tokenize_step_within
        ranges_within_reset)

lemma getContext_within:
  "ranges_within N t \<Longrightarrow> getContext n t = Some c \<Longrightarrow> list_all (closed_within N) (ranges c)"
  by (auto simp add: ranges_within_def getContext_def list_all_iff find_Some_iff)

section \<open>The reversal keeps the tokens\<close>

lemma mset_reversed_in_place: "mset (reversed_in_place r ts) = mset ts"
proof -
  have "mset (take s ts @ rev (take n (drop s ts)) @ drop (s + n) ts) = mset ts" for s n
  proof -
    have "mset (take n (drop s ts)) + mset (drop n (drop s ts)) = mset (drop s ts)"
      by (simp only: mset_append [symmetric] append_take_drop_id)
    moreover have "mset (take s ts) + mset (drop s ts) = mset ts"
      by (simp only: mset_append [symmetric] append_take_drop_id)
    ultimately show ?thesis by (simp add: add.commute drop_drop [symmetric] del: drop_drop)
  qed
  then show ?thesis by (simp add: reversed_in_place_def Let_def)
qed

lemma reverse_range_unchanged:
  assumes "endOffset r = Some e" and "0 \<le> startIndex r"
    and "startIndex r < int (length (tokens (tokenizer b)))" and "e < 0"
    and "1 \<le> startIndex r + e"
  shows "tokens (tokenizer (reverse_range r b)) = tokens (tokenizer b)"
proof -
  have sl: "getRangeTokens r (tokenizer b) = []"
    using assms by (simp add: getRangeTokens_def Let_def js_slice_def relative_index_def)
  have inb: "inboundIndex (PNum (startIndex r)) (tokenizer b)"
    using assms by (simp add: inboundIndex_def)
  have sp: "snd (js_splice (tokens (tokenizer b)) (startIndex r) e []) = tokens (tokenizer b)"
    using assms by (simp add: js_splice_def relative_index_def Let_def min_def)
  show ?thesis
    using assms inb
    by (simp add: reverse_range_def Let_def sl replaceRange_def isNaN_def to_integer_def split_beta
          dispatch_tokens sp)
qed

lemma reverse_range_out_of_bounds:
  assumes "\<not> (0 \<le> startIndex r \<and> startIndex r < int (length (tokens (tokenizer b))))"
  shows "reverse_range r b = b"
  using assms
  by (auto simp add: reverse_range_def Let_def replaceRange_def inboundIndex_def)

lemma reverse_range_mset:
  assumes "closed_within (length (tokens (tokenizer b))) r"
  shows "mset (tokens (tokenizer (reverse_range r b))) = mset (tokens (tokenizer b))"
proof -
  from assms obtain e where e: "endOffset r = Some e" "1 \<le> startIndex r + e"
      "startIndex r + e \<le> int (length (tokens (tokenizer b)))"
    by (auto simp add: closed_within_def split: option.splits)
  show ?thesis
  proof (cases "0 \<le> startIndex r \<and> startIndex r < int (length (tokens (tokenizer b)))")
    case False
    then show ?thesis by (simp add: reverse_range_out_of_bounds)
  next
    case True
    show ?thesis
    proof (cases "e < 0")
      case True
      with \<open>0 \<le> startIndex r \<and> startIndex r < int (length (tokens (tokenizer b)))\<close> e
      show ?thesis by (simp add: reverse_range_unchanged)
    next
      case False
      with True e have "in_bounds (length (tokens (tokenizer b))) r"
        by (simp add: in_bounds_def)
      then show ?thesis by (simp add: reverse_range_tokens mset_reversed_in_place)
    qed
  qed
qed

lemma fold_reverse_range_mset:
  "list_all (closed_within (length (tokens (tokenizer b)))) rs \<Longrightarrow>
   mset (tokens (tokenizer (fold reverse_range rs b))) = mset (tokens (tokenizer b))"
proof (induction rs arbitrary: b)
  case Nil
  then show ?case by simp
next
  case (Cons r rs)
  from Cons.prems have r: "closed_within (length (tokens (tokenizer b))) r" by simp
  have m: "mset (tokens (tokenizer (reverse_range r b))) = mset (tokens (tokenizer b))"
    using r by (rule reverse_range_mset)
  then have "length (tokens (tokenizer (reverse_range r b))) = length (tokens (tokenizer b))"
    by (rule mset_eq_length)
  with Cons.prems have "list_all (closed_within (length (tokens (tokenizer (reverse_range r b))))) rs"
    by simp
  then have "mset (tokens (tokenizer (fold reverse_range rs (reverse_range r b)))) =
             mset (tokens (tokenizer (reverse_range r b)))"
    by (rule Cons.IH)
  with m show ?case by simp
qed

section \<open>Code points\<close>

lemma Array_from_scalar:
  "scalar_string c \<Longrightarrow> Array_from (c @ rest) = c # Array_from rest"
proof (induction c rule: scalar_string.induct)
  case (1 u)
  then show ?case by (cases rest) simp_all
next
  case (2 u v)
  then show ?case by simp
qed simp_all

lemma Array_from_concat: "list_all scalar_string cs \<Longrightarrow> Array_from (concat cs) = cs"
  by (induction cs) (simp_all add: Array_from_scalar)

lemma featuresTags_tokenizeText: "featuresTags (tokenizeText checks b) = featuresTags b"
  by (simp add: tokenizeText_def bidi_registerContextChecker_def Let_def)

lemma featuresTags_fold_reverse_range: "featuresTags (fold reverse_range rs b) = featuresTags b"
  by (induction rs arbitrary: b) (simp_all add: reverse_range_def Let_def)

lemma tokenizeText_tokens:
  "bidi_text b = Some txt \<Longrightarrow>
   map char (tokens (tokenizer (tokenizeText checks b))) = Array_from txt
   \<and> ranges_within (length (Array_from txt)) (tokenizer (tokenizeText checks b))"
  by (simp add: tokenizeText_def Let_def bidi_registerContextChecker_def tokenize_tokens
        tokenize_chars tokenize_within)

text \<open>
  With no feature requested for the Arabic and the Latin script, \<^verbatim>\<open>processText\<close> of a
  text that is not the stored one returns, and the tokens are those of the text, one
  per code point, in a possibly different order.
\<close>

lemma processText_no_features:
  assumes "map_of (featuresTags b) ''arab'' = None" and "map_of (featuresTags b) ''latn'' = None"
    and "bidi_text b \<noteq> Some txt \<or> txt = []"
  shows "fst (processText checks sh txt b) = Returned"
    and "mset (map char (tokens (tokenizer (snd (processText checks sh txt b))))) =
         mset (Array_from txt)"
    and "bidi_text (snd (processText checks sh txt b)) = Some txt"
    and "featuresTags (snd (processText checks sh txt b)) = featuresTags b"
proof -
  let ?b2 = "tokenizeText checks (setText txt b)"
  have p: "processText checks sh txt b = applyFeaturesToContexts sh ?b2"
    using assms(3) by (auto simp add: processText_def split: option.splits)
  have f: "map_of (featuresTags ?b2) ''arab'' = None" "map_of (featuresTags ?b2) ''latn'' = None"
    using assms(1,2) by (simp_all add: featuresTags_tokenizeText setText_def)
  have tk: "map char (tokens (tokenizer ?b2)) = Array_from txt"
    and w: "ranges_within (length (Array_from txt)) (tokenizer ?b2)"
    using tokenizeText_tokens [of "setText txt b" "txt" "checks"] by (simp_all add: setText_def)
  have len: "length (tokens (tokenizer ?b2)) = length (Array_from txt)"
    using tk by (metis length_map)
  have tkm: "mset (map char (tokens (tokenizer ?b2))) = mset (Array_from txt)"
    by (simp only: tk)
  have tx: "bidi_text ?b2 = Some txt" by (simp add: tokenizeText_text setText_def)
  have ft: "featuresTags ?b2 = featuresTags b" by (simp add: featuresTags_tokenizeText setText_def)
  have "\<exists>b'. processText checks sh txt b = (Returned, b')
           \<and> mset (map char (tokens (tokenizer b'))) = mset (Array_from txt)
           \<and> bidi_text b' = Some txt \<and> featuresTags b' = featuresTags b"
  proof (cases "getContext ''arabicSentence'' (tokenizer ?b2)")
    case None
    then have "processText checks sh txt b = (Returned, ?b2)"
      using p f by (simp add: applyFeaturesToContexts_no_features checkContextReady_def)
    with tkm tx ft show ?thesis by simp
  next
    case (Some c)
    let ?b3 = "fold reverse_range (ranges c) ?b2"
    from Some have r: "processText checks sh txt b = (Returned, ?b3)"
      using p f
      by (simp add: applyFeaturesToContexts_no_features checkContextReady_def
            reverseArabicSentences_def forEach_range_def getContextRanges_def)
    from w Some have "list_all (closed_within (length (Array_from txt))) (ranges c)"
      by (rule getContext_within)
    then have "list_all (closed_within (length (tokens (tokenizer ?b2)))) (ranges c)"
      by (simp only: len)
    then have "mset (tokens (tokenizer ?b3)) = mset (tokens (tokenizer ?b2))"
      by (rule fold_reverse_range_mset)
    then have "mset (map char (tokens (tokenizer ?b3))) = mset (map char (tokens (tokenizer ?b2)))"
      by (simp only: mset_map)
    with tkm have 1: "mset (map char (tokens (tokenizer ?b3))) = mset (Array_from txt)"
      by (simp only:)
    have 2: "bidi_text ?b3 = Some txt" using tx by (simp add: fold_text reverse_range_text)
    have 3: "featuresTags ?b3 = featuresTags b"
      using ft by (simp add: featuresTags_fold_reverse_range)
    from r 1 2 3 show ?thesis by blast
  qed
  then obtain b' where b': "processText checks sh txt b = (Returned, b')"
      "mset (map char (tokens (tokenizer b'))) = mset (Array_from txt)"
      "bidi_text b' = Some txt" "featuresTags b' = featuresTags b"
    by blast
  from b' show "fst (processText checks sh txt b) = Returned" by simp
  from b' show "mset (map char (tokens (tokenizer (snd (processText checks sh txt b))))) =
         mset (Array_from txt)" by simp
  from b' show "bidi_text (snd (processText checks sh txt b)) = Some txt" by simp
  from b' show "featuresTags (snd (processText checks sh txt b)) = featuresTags b" by simp
qed

text \<open>
  C7. With no shaping feature registered (none requested for the Arabic and the Latin
  script), and for a text that is not the one stored: \<^verbatim>\<open>tokenize\<close> makes one token per
  code point, a surrogate pair being one token; \<^verbatim>\<open>getBidiText\<close> returns the text of
  the tokens; no step changes the number of tokens, and the tokens keep their
  characters (the reversal of Arabic sentences, which runs with no feature too, only
  reorders them); so for a text that is a sequence of Unicode scalar values the result
  has as many code points as the text. Calling again with the same text returns the
  same string.
\<close>

theorem getBidiText_code_points:
  assumes "map_of (featuresTags b) ''arab'' = None" and "map_of (featuresTags b) ''latn'' = None"
    and "bidi_text b \<noteq> Some txt \<or> txt = []"
  shows "map char (fst (tokenize txt t)) = Array_from txt
    \<and> length (tokens (tokenizer (tokenizeText checks (setText txt b)))) = length (Array_from txt)
    \<and> fst (getBidiText checks sh txt b) =
        Inr (getText (tokenizer (snd (getBidiText checks sh txt b))))
    \<and> length (tokens (tokenizer (snd (getBidiText checks sh txt b)))) = length (Array_from txt)
    \<and> mset (map char (tokens (tokenizer (snd (getBidiText checks sh txt b))))) =
        mset (Array_from txt)
    \<and> (well_formed txt \<longrightarrow>
         (\<forall>out. fst (getBidiText checks sh txt b) = Inr out \<longrightarrow>
            length (Array_from out) = length (Array_from txt)))
    \<and> fst (getBidiText checks sh txt (snd (getBidiText checks sh txt b))) =
        fst (getBidiText checks sh txt b)"
proof -
  let ?b1 = "snd (processText checks sh txt b)"
  note p = processText_no_features [OF assms, of "checks" sh]
  have g: "getBidiText checks sh txt b = (Inr (getText (tokenizer ?b1)), ?b1)"
    using p(1) by (cases "processText checks sh txt b") (simp add: getBidiText_def)
  have m: "mset (map char (tokens (tokenizer ?b1))) = mset (Array_from txt)" by (rule p(2))
  then have len: "length (tokens (tokenizer ?b1)) = length (Array_from txt)"
    by (metis length_map mset_eq_length)
  have tk: "length (tokens (tokenizer (tokenizeText checks (setText txt b)))) = length (Array_from txt)"
    using tokenizeText_tokens [of "setText txt b" "txt" "checks"]
    by (metis length_map setText_def bidi.select_convs(2) bidi.surjective bidi.update_convs(2))
  have wf: "length (Array_from (getText (tokenizer ?b1))) = length (Array_from txt)"
    if "well_formed txt"
  proof -
    from that have "\<forall>c\<in>set (Array_from txt). scalar_string c"
      by (simp add: well_formed_def list_all_iff)
    moreover from m have "set (map char (tokens (tokenizer ?b1))) = set (Array_from txt)"
      by (rule mset_eq_setD)
    ultimately have "list_all scalar_string (map char (tokens (tokenizer ?b1)))"
      by (simp add: list_all_iff del: set_map)
    then have "Array_from (getText (tokenizer ?b1)) = map char (tokens (tokenizer ?b1))"
      unfolding getText_def by (rule Array_from_concat)
    with len show ?thesis by simp
  qed
  have again: "fst (getBidiText checks sh txt ?b1) = Inr (getText (tokenizer ?b1))"
  proof (cases "txt = []")
    case False
    with p(3) have "processText checks sh txt ?b1 = (Returned, ?b1)"
      by (simp add: processText_def [of "checks" sh "txt" ?b1])
    then show ?thesis by (simp add: getBidiText_def)
  next
    case True
    have f: "map_of (featuresTags ?b1) ''arab'' = None" "map_of (featuresTags ?b1) ''latn'' = None"
      using assms(1,2) p(4) by simp_all
    note q = processText_no_features [OF f, of "txt" "checks" sh]
    have "tokens (tokenizer (snd (processText checks sh txt ?b1))) = []"
      using q(2) True by simp
    moreover have "tokens (tokenizer ?b1) = []" using m True by simp
    moreover have "fst (processText checks sh txt ?b1) = Returned" using q(1) True by simp
    ultimately show ?thesis
      by (cases "processText checks sh txt ?b1") (simp add: getBidiText_def getText_def)
  qed
  show ?thesis
    using g m len tk wf again by (simp add: tokenize_chars)
qed

theorem getBidiText_code_points_witness:
  "map_of (featuresTags (Bidi ''ltr'')) ''arab'' = None
   \<and> map_of (featuresTags (Bidi ''ltr'')) ''latn'' = None
   \<and> bidi_text (Bidi ''ltr'') \<noteq> Some [0xD83D, 0xDE00, 0x645, 0x631]
   \<and> well_formed [0xD83D, 0xDE00, 0x645, 0x631]
   \<and> Array_from [0xD83D, 0xDE00, 0x645, 0x631] = [[0xD83D, 0xDE00], [0x645], [0x631]]
   \<and> fst (getBidiText example_checks no_shaping [0xD83D, 0xDE00, 0x645, 0x631] (Bidi ''ltr'')) =
       Inr [0xD83D, 0xDE00, 0x631, 0x645]
   \<and> length (Array_from [0xD83D, 0xDE00, 0x631, 0x645 :: 16 word]) =
       length (Array_from [0xD83D, 0xDE00, 0x645, 0x631 :: 16 word])"
proof -
  let ?txt = "[0xD83D, 0xDE00, 0x645, 0x631] :: jsstring"
  have h1: "map_of (featuresTags (Bidi ''ltr'')) ''arab'' = None" by code_simp
  have h2: "map_of (featuresTags (Bidi ''ltr'')) ''latn'' = None" by code_simp
  have h3: "bidi_text (Bidi ''ltr'') \<noteq> Some ?txt \<or> ?txt = []" by code_simp
  have h3': "bidi_text (Bidi ''ltr'') \<noteq> Some ?txt" by code_simp
  have wf: "well_formed ?txt" by code_simp
  have af: "Array_from ?txt = [[0xD83D, 0xDE00], [0x645], [0x631]]" by code_simp
  have out: "fst (getBidiText example_checks no_shaping ?txt (Bidi ''ltr'')) =
       Inr [0xD83D, 0xDE00, 0x631, 0x645]"
    by code_simp
  from getBidiText_code_points [OF h1 h2 h3, of "Tokenizer []" example_checks no_shaping] wf out
  have "length (Array_from [0xD83D, 0xDE00, 0x631, 0x645 :: 16 word]) = length (Array_from ?txt)"
    by blast
  with h1 h2 h3' wf af out show ?thesis by blast
qed

section \<open>The context ranges after an editing operation\<close>

lemma setEndOffset_cong:
  assumes "contextCheckers a = contextCheckers b"
  shows "map_option (\<lambda>(r, x). (r, contextCheckers x)) (setEndOffset off n a) =
         map_option (\<lambda>(r, x). (r, contextCheckers x)) (setEndOffset off n b)"
proof -
  have g: "getContext n a = getContext n b" using assms by (simp add: getContext_def)
  show ?thesis
    by (cases "getContext n b"; cases "Option.bind (getContext n b) openRange")
       (simp_all add: setEndOffset_def g Let_def update_context_def assms)
qed

lemma close_cong:
  assumes "contextCheckers a = contextCheckers b"
  shows "contextCheckers (case setEndOffset off n a of None \<Rightarrow> a
                          | Some (rng, t2) \<Rightarrow> notify e [EName n, ERange rng] t2) =
         contextCheckers (case setEndOffset off n b of None \<Rightarrow> b
                          | Some (rng, t2) \<Rightarrow> notify e [EName n, ERange rng] t2)"
proof (cases "setEndOffset off n a")
  case None
  with setEndOffset_cong [OF assms, of off n] have "setEndOffset off n b = None" by simp
  with None assms show ?thesis by simp
next
  case (Some x)
  obtain rng t2 where x: "x = (rng, t2)" by (cases x)
  with Some setEndOffset_cong [OF assms, of off n]
  obtain t2' where "setEndOffset off n b = Some (rng, t2')" "contextCheckers t2' = contextCheckers t2"
    by (cases "setEndOffset off n b") auto
  with Some x show ?thesis by (simp add: notify_fields)
qed

text \<open>A context check changes the checkers according to the checkers alone.\<close>

lemma check_one_cong:
  assumes "contextCheckers t = contextCheckers t'"
  shows "contextCheckers (check_one p c t) = contextCheckers (check_one p c t')"
proof -
  let ?n = "checker_contextName c"
  have g: "getContext ?n t = getContext ?n t'" using assms by (simp add: getContext_def)
  let ?open0 = "Option.bind (getContext ?n t') openRange"
  let ?starts = "?open0 = None \<and> checkStart c p"
  define o1 where "o1 = (if ?starts then Some (ContextRange (index p) None ?n) else ?open0)"
  define f where "f = (\<lambda>t. if ?starts
             then notify ''contextStart'' [EName ?n, EPrim (PNum (index p))]
                    (update_context ?n (\<lambda>x. x\<lparr>openRange := o1\<rparr>) t)
             else t)"
  have 1: "contextCheckers (f t) = contextCheckers (f t')"
    using assms by (simp add: f_def notify_fields update_context_def)
  have a: "check_one p c t =
        (case o1 of None \<Rightarrow> f t
         | Some r \<Rightarrow>
             if checkEnd c p
             then (case setEndOffset (index p - startIndex r + 1) ?n (f t) of
                     None \<Rightarrow> f t
                   | Some (rng, t2) \<Rightarrow> notify ''contextEnd'' [EName ?n, ERange rng] t2)
             else f t)"
    unfolding check_one_def Let_def g o1_def f_def by (rule refl)
  have b: "check_one p c t' =
        (case o1 of None \<Rightarrow> f t'
         | Some r \<Rightarrow>
             if checkEnd c p
             then (case setEndOffset (index p - startIndex r + 1) ?n (f t') of
                     None \<Rightarrow> f t'
                   | Some (rng, t2) \<Rightarrow> notify ''contextEnd'' [EName ?n, ERange rng] t2)
             else f t')"
    unfolding check_one_def Let_def o1_def f_def by (rule refl)
  show ?thesis
  proof (cases o1)
    case None
    then show ?thesis unfolding a b using 1 by (simp only: option.case)
  next
    case (Some r)
    show ?thesis
    proof (cases "checkEnd c p")
      case True
      show ?thesis
        unfolding a b Some option.case if_P [OF True]
        by (rule close_cong [OF 1])
    next
      case False
      then show ?thesis unfolding a b Some option.case using 1 by (simp only: if_False)
    qed
  qed
qed

lemma fold_check_one_checkers:
  "contextCheckers t = contextCheckers t' \<Longrightarrow>
   contextCheckers (fold (check_one p) cs t) = contextCheckers (fold (check_one p) cs t')"
proof (induction cs arbitrary: t t')
  case Nil
  then show ?case by simp
next
  case (Cons c cs)
  from Cons.prems have "contextCheckers (check_one p c t) = contextCheckers (check_one p c t')"
    by (rule check_one_cong)
  then have "contextCheckers (fold (check_one p) cs (check_one p c t)) =
             contextCheckers (fold (check_one p) cs (check_one p c t'))"
    by (rule Cons.IH)
  then show ?case by simp
qed

lemma runContextCheck_checkers:
  assumes "contextCheckers t = contextCheckers t'"
  shows "contextCheckers (runContextCheck p t) = contextCheckers (runContextCheck p t')"
  unfolding runContextCheck_def assms by (rule fold_check_one_checkers [OF assms])

lemma fold_runContextCheck_checkers:
  "contextCheckers t = contextCheckers t' \<Longrightarrow>
   contextCheckers (fold (\<lambda>i. runContextCheck (ContextParams chars (int i))) is t) =
   contextCheckers (fold (\<lambda>i. runContextCheck (ContextParams chars (int i))) is t')"
proof (induction "is" arbitrary: t t')
  case Nil
  then show ?case by simp
next
  case (Cons i "is")
  from Cons.prems have "contextCheckers (runContextCheck (ContextParams chars (int i)) t) =
        contextCheckers (runContextCheck (ContextParams chars (int i)) t')"
    by (rule runContextCheck_checkers)
  then have "contextCheckers (fold (\<lambda>i. runContextCheck (ContextParams chars (int i))) is
                (runContextCheck (ContextParams chars (int i)) t)) =
             contextCheckers (fold (\<lambda>i. runContextCheck (ContextParams chars (int i))) is
                (runContextCheck (ContextParams chars (int i)) t'))"
    by (rule Cons.IH)
  then show ?case by simp
qed

text \<open>The checkers after a scan depend on the checkers before it and on the characters.\<close>

lemma scan_checkers:
  "contextCheckers t = contextCheckers t' \<Longrightarrow>
   contextCheckers (scan chars t) = contextCheckers (scan chars t')"
  unfolding scan_def by (rule fold_runContextCheck_checkers)

text \<open>A scan changes the ranges and the open range of a checker, nothing else.\<close>

lemma cleared_update_context:
  assumes "\<And>c. cleared (f c) = cleared c"
  shows "map cleared (contextCheckers (update_context n f t)) = map cleared (contextCheckers t)"
proof -
  have "map cleared (map (\<lambda>c. if checker_contextName c = n then f c else c) cs) = map cleared cs"
    for cs
    by (induction cs) (simp_all add: assms)
  then show ?thesis by (simp add: update_context_def)
qed

lemma cleared_setEndOffset:
  assumes "setEndOffset off n t = Some (rng, t2)"
  shows "map cleared (contextCheckers t2) = map cleared (contextCheckers t)"
proof -
  from setEndOffset_Some [OF assms] have
    "contextCheckers t2 =
       contextCheckers (update_context n (\<lambda>x. x\<lparr>ranges := ranges x @ [rng], openRange := None\<rparr>) t)"
    by (auto simp add: update_context_def)
  then show ?thesis by (simp add: cleared_update_context cleared_def)
qed

lemma cleared_check_one:
  "map cleared (contextCheckers (check_one p c t)) = map cleared (contextCheckers t)"
proof -
  let ?n = "checker_contextName c"
  let ?open0 = "Option.bind (getContext ?n t) openRange"
  let ?starts = "?open0 = None \<and> checkStart c p"
  let ?open1 = "if ?starts then Some (ContextRange (index p) None ?n) else ?open0"
  let ?t1 = "if ?starts
             then notify ''contextStart'' [EName ?n, EPrim (PNum (index p))]
                    (update_context ?n (\<lambda>x. x\<lparr>openRange := ?open1\<rparr>) t)
             else t"
  have 1: "map cleared (contextCheckers ?t1) = map cleared (contextCheckers t)"
    by (simp add: notify_fields cleared_update_context cleared_def)
  have 2: "map cleared (contextCheckers (notify ''contextEnd'' [EName ?n, ERange rng] t2)) =
           map cleared (contextCheckers t)"
    if "setEndOffset off ?n ?t1 = Some (rng, t2)" for off rng t2
    using cleared_setEndOffset [OF that] 1 by (simp only: notify_fields)
  show ?thesis
    unfolding check_one_def Let_def
    using 1 2 by (auto split: option.splits)
qed

lemma cleared_fold_check_one:
  "map cleared (contextCheckers (fold (check_one p) cs t)) = map cleared (contextCheckers t)"
  by (induction cs arbitrary: t) (simp_all add: cleared_check_one)

lemma cleared_fold_runContextCheck:
  "map cleared (contextCheckers (fold (\<lambda>i. runContextCheck (ContextParams chars (int i))) is t)) =
   map cleared (contextCheckers t)"
  by (induction "is" arbitrary: t) (simp_all add: runContextCheck_def cleared_fold_check_one)

lemma cleared_scan: "map cleared (contextCheckers (scan chars t)) = map cleared (contextCheckers t)"
  by (simp add: scan_def cleared_fold_runContextCheck)

lemma cleared_reset:
  "no_open_range t \<Longrightarrow>
   map cleared (contextCheckers (resetContextsRanges t)) = contextCheckers (resetContextsRanges t)"
  by (simp add: no_open_range_def resetContextsRanges_def cleared_def list_all_iff)

lemma fresh_ranges_cong:
  assumes "tokens t = tokens t'" and "contextCheckers t = contextCheckers t'"
  shows "fresh_ranges t = fresh_ranges t'"
proof -
  have "contextCheckers (clearContexts t) = contextCheckers (clearContexts t')"
    using assms(2) by (simp add: clearContexts_def)
  then have "contextCheckers (scan (map char (tokens t)) (clearContexts t)) =
             contextCheckers (scan (map char (tokens t)) (clearContexts t'))"
    by (rule scan_checkers)
  then show ?thesis by (simp add: fresh_ranges_def assms(1))
qed

lemma stored_ranges_cong:
  "contextCheckers t = contextCheckers t' \<Longrightarrow> stored_ranges t = stored_ranges t'"
  by (simp add: stored_ranges_def)

text \<open>
  \<^verbatim>\<open>updateContextsRanges\<close>, started with no range open, stores what a scan from scratch
  of the same tokens gives.
\<close>

lemma updateContextsRanges_fresh:
  assumes "no_open_range t"
  shows "stored_ranges (updateContextsRanges t) = fresh_ranges (updateContextsRanges t)"
proof -
  let ?chars = "map char (tokens t)"
  let ?u = "updateContextsRanges t"
  have c: "contextCheckers ?u = contextCheckers (scan ?chars (resetContextsRanges t))"
    by (simp add: updateContextsRanges_def Let_def notify_fields resetContextsRanges_fields)
  have "contextCheckers (clearContexts ?u) = map cleared (contextCheckers (resetContextsRanges t))"
    by (simp add: clearContexts_def c cleared_scan)
  also have "\<dots> = contextCheckers (resetContextsRanges t)"
    using assms by (rule cleared_reset)
  finally have "contextCheckers (scan ?chars (clearContexts ?u)) =
                contextCheckers (scan ?chars (resetContextsRanges t))"
    by (rule scan_checkers)
  then show ?thesis
    by (simp add: stored_ranges_def fresh_ranges_def c updateContextsRanges_fields)
qed

lemma dispatch_one_not_update:
  assumes "\<not> is_update s" and "newToken_params args = None"
  shows "tokens (dispatch_one e args s t) = tokens t"
    and "contextCheckers (dispatch_one e args s t) = contextCheckers t"
proof -
  show "tokens (dispatch_one e args s t) = tokens t"
    using assms by (cases s) (simp_all add: apply_modifier_other)
  show "contextCheckers (dispatch_one e args s t) = contextCheckers t"
    using assms by (cases s) (simp_all add: apply_modifier_other)
qed

lemma fold_dispatch_one_not_update:
  assumes "newToken_params args = None"
  shows "filter is_update subs = [] \<Longrightarrow>
         tokens (fold (dispatch_one e args) subs t) = tokens t
         \<and> contextCheckers (fold (dispatch_one e args) subs t) = contextCheckers t"
proof (induction subs arbitrary: t)
  case Nil
  then show ?case by simp
next
  case (Cons s subs)
  then have n: "\<not> is_update s" and r: "filter is_update subs = []" by (auto split: if_splits)
  have 1: "tokens (dispatch_one e args s t) = tokens t"
    and 2: "contextCheckers (dispatch_one e args s t) = contextCheckers t"
    using n assms by (rule dispatch_one_not_update)+
  from Cons.IH [OF r, of "dispatch_one e args s t"] 1 2 show ?case by simp
qed

lemma fold_dispatch_one_fresh:
  assumes "newToken_params args = None"
  shows "length (filter is_update subs) = 1 \<Longrightarrow> no_open_range t \<Longrightarrow>
         stored_ranges (fold (dispatch_one e args) subs t) =
         fresh_ranges (fold (dispatch_one e args) subs t)"
proof (induction subs arbitrary: t)
  case Nil
  then show ?case by simp
next
  case (Cons s subs)
  show ?case
  proof (cases "is_update s")
    case True
    then have s: "s = UpdateContextsRanges" by (cases s) simp_all
    from True Cons.prems(1) have "filter is_update subs = []" by simp
    from fold_dispatch_one_not_update [OF assms this, of e "updateContextsRanges t"]
    have same: "tokens (fold (dispatch_one e args) subs (updateContextsRanges t)) =
                  tokens (updateContextsRanges t)"
        "contextCheckers (fold (dispatch_one e args) subs (updateContextsRanges t)) =
                  contextCheckers (updateContextsRanges t)"
      by simp_all
    have "stored_ranges (fold (dispatch_one e args) subs (updateContextsRanges t)) =
          stored_ranges (updateContextsRanges t)"
      using same(2) by (rule stored_ranges_cong)
    moreover have "fresh_ranges (fold (dispatch_one e args) subs (updateContextsRanges t)) =
          fresh_ranges (updateContextsRanges t)"
      using same by (rule fresh_ranges_cong)
    ultimately show ?thesis
      using updateContextsRanges_fresh [OF Cons.prems(2)] s by simp
  next
    case False
    with Cons.prems(1) have l: "length (filter is_update subs) = 1" by simp
    from dispatch_one_not_update [OF False assms, of e t] Cons.prems(2)
    have "no_open_range (dispatch_one e args s t)" by (simp add: no_open_range_def)
    from Cons.IH [OF l this] show ?thesis by simp
  qed
qed

text \<open>
  An event to which \<^verbatim>\<open>updateContextsRanges\<close> is subscribed once, dispatched when no
  range is open, leaves the ranges of a scan from scratch.
\<close>

lemma dispatch_fresh:
  assumes "newToken_params args = None" and "updates_once e t" and "no_open_range t"
  shows "stored_ranges (dispatch e args t) = fresh_ranges (dispatch e args t)"
proof -
  let ?t1 = "t\<lparr>trace := trace t @ [Dispatch e args]\<rparr>"
  have "no_open_range ?t1" using assms(3) by (simp add: no_open_range_def)
  moreover have "length (filter is_update (subscribers_of e t)) = 1"
    using assms(2) by (simp add: updates_once_def)
  ultimately show ?thesis
    by (simp add: dispatch_unfold fold_dispatch_one_fresh [OF assms(1)])
qed



lemma recomputed_fresh:
  assumes "no_open_range t"
  shows "recomputed_ranges t = fresh_ranges t"
proof -
  have "contextCheckers (resetContextsRanges t) = contextCheckers (clearContexts t)"
    using assms
    by (simp add: no_open_range_def resetContextsRanges_def clearContexts_def cleared_def list_all_iff)
  then have "contextCheckers (scan (map char (tokens t)) (resetContextsRanges t)) =
             contextCheckers (scan (map char (tokens t)) (clearContexts t))"
    by (rule scan_checkers)
  then show ?thesis by (simp add: recomputed_ranges_def fresh_ranges_def)
qed

lemma updates_once_tokens [simp]: "updates_once e (t\<lparr>tokens := ts\<rparr>) = updates_once e t"
  by (simp add: updates_once_def subscribers_of_def)

lemma no_open_range_tokens [simp]: "no_open_range (t\<lparr>tokens := ts\<rparr>) = no_open_range t"
  by (simp add: no_open_range_def)

lemma requiresContextUpdate_all:
  assumes "list_all (\<lambda>e. updates_once e t) requiresContextUpdate"
  shows "updates_once ''insertToken'' t" "updates_once ''removeToken'' t"
    "updates_once ''removeRange'' t" "updates_once ''replaceToken'' t"
    "updates_once ''replaceRange'' t" "updates_once ''composeRUD'' t"
  using assms by (simp_all add: requiresContextUpdate_def)

text \<open>
  C1. The claim: after every editing operation that is not silent, the ranges stored in
  the checkers are the ranges that resetting all ranges and running the context check
  at every index gives. \<^verbatim>\<open>resetContextsRanges\<close> empties the ranges and keeps the open
  range of a checker: with a checker that starts at \<open>a\<close> and ends at \<open>b\<close>, after the text
  \<open>a\<close> the range opened at 0 is still open, and inserting \<open>b\<close> at 0 stores the range
  (0, 1), where the recomputation on the new state gives the range (1, 0) and a scan
  from scratch gives none. An operation that returns a soft failure recomputes nothing:
  after a checker was registered on a tokenized text, \<^verbatim>\<open>removeToken(5)\<close> leaves its
  ranges empty.
\<close>

theorem edit_ranges_counterexample:
  "\<not> hasFAILObject (fst (apply_edit (InsertToken [IsToken (Token [98])] (PNum 0)) PUndefined
        tokenizer_open_a))
   \<and> stored_ranges (snd (apply_edit (InsertToken [IsToken (Token [98])] (PNum 0)) PUndefined
        tokenizer_open_a)) \<noteq>
      recomputed_ranges (snd (apply_edit (InsertToken [IsToken (Token [98])] (PNum 0)) PUndefined
        tokenizer_open_a))
   \<and> stored_ranges (snd (apply_edit (InsertToken [IsToken (Token [98])] (PNum 0)) PUndefined
        tokenizer_open_a)) \<noteq>
      fresh_ranges (snd (apply_edit (InsertToken [IsToken (Token [98])] (PNum 0)) PUndefined
        tokenizer_open_a))
   \<and> stored_ranges (snd (apply_edit (RemoveToken (PNum 5)) PUndefined tokenizer_late_checker)) \<noteq>
      recomputed_ranges (snd (apply_edit (RemoveToken (PNum 5)) PUndefined tokenizer_late_checker))"
  by code_simp

lemma apply_edit_FAIL:
  "hasFAILObject (fst (apply_edit ed silent t)) \<Longrightarrow> snd (apply_edit ed silent t) = t"
proof (cases ed)
  case (ComposeRUD rs)
  assume "hasFAILObject (fst (apply_edit ed silent t))"
  with ComposeRUD have "list_all hasFAILObject (fst (map_RUDs rs t))"
    by (simp add: composeRUD_def split_beta split: if_splits)
  then have "snd (map_RUDs rs t) = t" by (rule map_RUDs_all_FAIL)
  then show ?thesis
    using ComposeRUD \<open>list_all hasFAILObject (fst (map_RUDs rs t))\<close>
    by (simp add: composeRUD_def split_beta)
qed (auto simp add: insertToken_def removeToken_def removeRange_def replaceToken_def
       replaceRange_def Let_def split_beta split: item.splits if_splits)

text \<open>
  C1, as amended. An editing operation that returns a soft failure leaves the tokenizer as
  it was: it dispatches no event and recomputes nothing. For a tokenizer in which no
  checker holds an open range and \<^verbatim>\<open>updateContextsRanges\<close> is subscribed once to each of
  the six editing events (as the constructor leaves them), and for every editing operation
  that is not silent and does not return a soft failure (\<^verbatim>\<open>composeRUD\<close> over calls that
  list all their arguments): after the operation the ranges stored in the checkers are the
  ranges of a scan from scratch of the token vector, and, when the operation leaves no
  range open, the ranges that resetting all ranges and running the context check at every
  index gives.
\<close>

theorem edit_stores_fresh_ranges:
  "(hasFAILObject (fst (apply_edit ed silent t)) \<longrightarrow> snd (apply_edit ed silent t) = t)
   \<and> (no_open_range t
        \<and> list_all (\<lambda>e. updates_once e t) requiresContextUpdate
        \<and> \<not> truthy_prim silent
        \<and> complete_calls ed
        \<and> \<not> hasFAILObject (fst (apply_edit ed silent t)) \<longrightarrow>
        stored_ranges (snd (apply_edit ed silent t)) = fresh_ranges (snd (apply_edit ed silent t))
        \<and> (no_open_range (snd (apply_edit ed silent t)) \<longrightarrow>
             stored_ranges (snd (apply_edit ed silent t)) =
             recomputed_ranges (snd (apply_edit ed silent t))))"
proof -
  have failed: "snd (apply_edit ed silent t) = t" if "hasFAILObject (fst (apply_edit ed silent t))"
    using that by (rule apply_edit_FAIL)
  have recomputed: "stored_ranges (snd (apply_edit ed silent t)) = fresh_ranges (snd (apply_edit ed silent t))
         \<and> (no_open_range (snd (apply_edit ed silent t)) \<longrightarrow>
              stored_ranges (snd (apply_edit ed silent t)) =
              recomputed_ranges (snd (apply_edit ed silent t)))"
    if "no_open_range t"
      and "list_all (\<lambda>e. updates_once e t) requiresContextUpdate"
      and "\<not> truthy_prim silent"
      and "complete_calls ed"
      and "\<not> hasFAILObject (fst (apply_edit ed silent t))"
  proof -
      note u = requiresContextUpdate_all [OF that(2)]
      have "stored_ranges (snd (apply_edit ed silent t)) = fresh_ranges (snd (apply_edit ed silent t))"
      proof (cases ed)
        case (InsertToken items i)
        with that(5) have ok: "list_all instanceof_Token items"
          by (simp add: insertToken_def Let_def split: if_splits)
        show ?thesis
          using InsertToken ok that(1,3) u(1)
          by (simp add: insertToken_def Let_def split_beta dispatch_fresh)
      next
        case (RemoveToken i)
        with that(5) have ok: "\<not> isNaN i \<and> inboundIndex i t"
          by (simp add: removeToken_def Let_def split: if_splits)
        show ?thesis
          using RemoveToken ok that(1,3) u(2)
          by (simp add: removeToken_def Let_def split_beta dispatch_fresh)
      next
        case (RemoveRange s off)
        show ?thesis
          using RemoveRange that(1,3) u(3)
          by (simp add: removeRange_def Let_def split_beta dispatch_fresh)
      next
        case (ReplaceToken i itm)
        with that(5) obtain tok where ok: "itm = IsToken tok" "\<not> isNaN i \<and> inboundIndex i t"
          by (cases itm) (simp_all add: replaceToken_def Let_def split: if_splits)
        show ?thesis
          using ReplaceToken ok that(1,3) u(4)
          by (simp add: replaceToken_def Let_def split_beta dispatch_fresh)
      next
        case (ReplaceRange s off items)
        with that(5) have ok: "\<not> isNaN s \<and> inboundIndex s t \<and> list_all instanceof_Token items"
          by (simp add: replaceRange_def Let_def split: if_splits)
        show ?thesis
          using ReplaceRange ok that(1,3) u(4)
          by (simp add: replaceRange_def Let_def split_beta dispatch_fresh)
      next
        case (ComposeRUD rs)
        with that(4) have full: "list_all lists_all_arguments rs" by simp
        from ComposeRUD that(5) have nf: "\<not> list_all hasFAILObject (fst (map_RUDs rs t))"
          by (simp add: composeRUD_def split_beta split: if_splits)
        let ?t1 = "snd (map_RUDs rs t)"
        from map_RUDs_silent [OF full, of t]
        have same: "events ?t1 = events t" "contextCheckers ?t1 = contextCheckers t" by simp_all
        have 1: "no_open_range ?t1" using that(1) unfolding no_open_range_def same(2) .
        have 2: "updates_once ''composeRUD'' ?t1"
          using u(6) updates_once_events [OF same(1), of "''composeRUD''"] by simp
        show ?thesis
          using ComposeRUD nf
          by (simp add: composeRUD_def split_beta dispatch_fresh [OF _ 2 1])
      qed
      then show ?thesis by (simp add: recomputed_fresh)
  qed
  from failed recomputed show ?thesis by blast
qed

theorem edit_stores_fresh_ranges_witness:
  "no_open_range tokenizer_closed_ab
   \<and> list_all (\<lambda>e. updates_once e tokenizer_closed_ab) requiresContextUpdate
   \<and> \<not> hasFAILObject (fst (apply_edit (InsertToken [IsToken (Token [97])] (PNum 2)) PUndefined
          tokenizer_closed_ab))
   \<and> stored_ranges (snd (apply_edit (InsertToken [IsToken (Token [97])] (PNum 2)) PUndefined
          tokenizer_closed_ab)) =
       [[\<lparr>contextName = ''w'', startIndex = 0, endOffset = Some 2, rangeId = Some (''w'', 0)\<rparr>]]
   \<and> fresh_ranges (snd (apply_edit (InsertToken [IsToken (Token [97])] (PNum 2)) PUndefined
          tokenizer_closed_ab)) =
       [[\<lparr>contextName = ''w'', startIndex = 0, endOffset = Some 2, rangeId = Some (''w'', 0)\<rparr>]]
   \<and> hasFAILObject (fst (apply_edit (RemoveToken (PNum 5)) PUndefined tokenizer_closed_ab))
   \<and> snd (apply_edit (RemoveToken (PNum 5)) PUndefined tokenizer_closed_ab) = tokenizer_closed_ab"
proof -
  let ?ed = "InsertToken [IsToken (Token [97])] (PNum 2)"
  have h1: "no_open_range tokenizer_closed_ab" by code_simp
  have h2: "list_all (\<lambda>e. updates_once e tokenizer_closed_ab) requiresContextUpdate" by code_simp
  have h3: "\<not> truthy_prim PUndefined" by simp
  have h4: "complete_calls ?ed" by simp
  have h5: "\<not> hasFAILObject (fst (apply_edit ?ed PUndefined tokenizer_closed_ab))" by code_simp
  have h6: "hasFAILObject (fst (apply_edit (RemoveToken (PNum 5)) PUndefined tokenizer_closed_ab))"
    by code_simp
  have s: "stored_ranges (snd (apply_edit ?ed PUndefined tokenizer_closed_ab)) =
       [[\<lparr>contextName = ''w'', startIndex = 0, endOffset = Some 2, rangeId = Some (''w'', 0)\<rparr>]]"
    by code_simp
  from edit_stores_fresh_ranges [of ?ed PUndefined tokenizer_closed_ab] h1 h2 h3 h4 h5 s
  have "fresh_ranges (snd (apply_edit ?ed PUndefined tokenizer_closed_ab)) =
       [[\<lparr>contextName = ''w'', startIndex = 0, endOffset = Some 2, rangeId = Some (''w'', 0)\<rparr>]]"
    by simp
  moreover
  from edit_stores_fresh_ranges [of "RemoveToken (PNum 5)" PUndefined tokenizer_closed_ab] h6
  have "snd (apply_edit (RemoveToken (PNum 5)) PUndefined tokenizer_closed_ab) = tokenizer_closed_ab"
    by (rule conjunct1 [THEN mp])
  ultimately show ?thesis using h1 h2 h5 h6 s by blast
qed

section \<open>The event of replaceRange\<close>



end
